theory Spec2Isabelle
  imports Complex_Main "HOL-Library.Word" "HOL-Library.Log_Nat"
begin

section \<open>The fixed-capacity string: storage\<close>

text \<open>
  Both classes of the repository, \<^verbatim>\<open>zuu::string<CharT, N>\<close> (constant_string.hpp,
  constant_string_core.hpp) and \<^verbatim>\<open>zuu::basic_fstring<CharT, Cap>\<close> (include/fstring_core.hpp),
  hold the same two members: the inline array \<^verbatim>\<open>data_[N + 1]\<close> and the counter
  \<^verbatim>\<open>len_\<close> / \<^verbatim>\<open>length_\<close>. The capacity is a template parameter, so the model passes
  it as the first argument \<open>N\<close> / \<open>cap\<close> of every operation. Functions of the first class
  carry the prefix \<open>cs_\<close>, functions of the second the prefix \<open>fs_\<close>.

  Sizes (\<^verbatim>\<open>std::size_t\<close>) are natural numbers; where the source's arithmetic can leave the
  range of a 64-bit \<^verbatim>\<open>size_t\<close> the reduction modulo \<open>2 ^ 64\<close> is written out.
  A write outside the array, undefined in C++, leaves the list unchanged (\<open>xs[i := v]\<close>).
\<close>

record 'a fstring =
  data :: "'a list"
  len :: nat

text \<open>\<^verbatim>\<open>static constexpr size_type npos = static_cast<size_type>(-1)\<close>\<close>

definition npos :: nat where
  "npos = 2 ^ 64 - 1"

text \<open>
  The storage invariants of a string of capacity \<open>cap\<close>: the array has \<open>cap + 1\<close> units,
  \<open>len \<le> cap\<close> (I2) and the unit at index \<open>len\<close> is the terminator (I1).
\<close>

definition storage_ok :: "nat \<Rightarrow> 'a::zero fstring \<Rightarrow> bool" where
  "storage_ok cap s \<longleftrightarrow> length (data s) = cap + 1 \<and> len s \<le> cap \<and> data s ! len s = 0"

text \<open>The significant units \<^verbatim>\<open>data_[0, len_)\<close>.\<close>

definition content :: "'a fstring \<Rightarrow> 'a list" where
  "content s = take (len s) (data s)"

text \<open>The default constructor: \<^verbatim>\<open>data_[N + 1]{}\<close> is zero-initialised, \<^verbatim>\<open>len_ = 0\<close>.\<close>

definition empty_string :: "nat \<Rightarrow> 'a::zero fstring" where
  "empty_string cap = \<lparr>data = replicate (cap + 1) 0, len = 0\<rparr>"

text \<open>A string literal as the list of its code units.\<close>

definition lit :: "string \<Rightarrow> int list" where
  "lit s = map of_char s"

subsection \<open>The copy and fill loops\<close>

text \<open>
  \<^verbatim>\<open>for (size_type i = 0; i < n; ++i) data_[off + i] = str[i];\<close>
  as constant_string.hpp writes it in \<^verbatim>\<open>assign_impl\<close> and \<^verbatim>\<open>append\<close>.
  Reading \<open>str ! i\<close> beyond the source is undefined in C++ and unspecified here.
\<close>

function copy_loop :: "'a list \<Rightarrow> nat \<Rightarrow> 'a list \<Rightarrow> nat \<Rightarrow> nat \<Rightarrow> 'a list" where
  "copy_loop dst off src i n =
     (if i < n then copy_loop (dst[off + i := src ! i]) off src (Suc i) n else dst)"
  by pat_completeness auto
termination
  by (relation "measure (\<lambda>(dst, off, src, i, n). n - i)") auto

text \<open>\<^verbatim>\<open>for (size_type i = 0; i < n; ++i) data_[off + i] = ch;\<close>\<close>

function fill_loop :: "'a list \<Rightarrow> nat \<Rightarrow> 'a \<Rightarrow> nat \<Rightarrow> nat \<Rightarrow> 'a list" where
  "fill_loop dst off ch i n =
     (if i < n then fill_loop (dst[off + i := ch]) off ch (Suc i) n else dst)"
  by pat_completeness auto
termination
  by (relation "measure (\<lambda>(dst, off, ch, i, n). n - i)") auto

text \<open>
  Modelled from the spec: \<^verbatim>\<open>detail::memcpy_string(dst, src, n)\<close> of
  constant_string_detail.hpp, which is not among the source files. It copies \<open>n\<close> units
  ("copies as many source units as available space allows"); the single-header
  constant_string.hpp writes the same copy as the loop above. The destination pointer
  \<^verbatim>\<open>data_ + off\<close> is the pair of the array and the offset.
\<close>

definition memcpy_string :: "'a list \<Rightarrow> nat \<Rightarrow> 'a list \<Rightarrow> nat \<Rightarrow> 'a list" where
  "memcpy_string dst off src n = copy_loop dst off src 0 n"

text \<open>
  Modelled from the spec: \<^verbatim>\<open>detail::memset_string(dst, ch, n)\<close> of
  constant_string_detail.hpp, not among the source files: stores \<open>ch\<close> in \<open>n\<close> units
  ("fills the new tail with fillUnit").
\<close>

definition memset_string :: "'a list \<Rightarrow> nat \<Rightarrow> 'a \<Rightarrow> nat \<Rightarrow> 'a list" where
  "memset_string dst off ch n = fill_loop dst off ch 0 n"

text \<open>
  Modelled from the spec: \<^verbatim>\<open>detail::copy{}(dst, src, n)\<close>, \<^verbatim>\<open>detail::fill{}(dst, ch, n)\<close>
  and \<^verbatim>\<open>detail::min{}(a, b)\<close> of include/fstring_utils.hpp, not among the source files:
  the unit copy, the unit fill and the smaller of two sizes.
\<close>

definition detail_copy :: "'a list \<Rightarrow> nat \<Rightarrow> 'a list \<Rightarrow> nat \<Rightarrow> 'a list" where
  "detail_copy dst off src n = copy_loop dst off src 0 n"

definition detail_fill :: "'a list \<Rightarrow> nat \<Rightarrow> 'a \<Rightarrow> nat \<Rightarrow> 'a list" where
  "detail_fill dst off ch n = fill_loop dst off ch 0 n"

definition detail_min :: "nat \<Rightarrow> nat \<Rightarrow> nat" where
  "detail_min a b = (if b < a then b else a)"

subsection \<open>Construction and assignment\<close>

text \<open>
  constant_string.hpp, \<^verbatim>\<open>string::assign_impl(const CharT* str, size_type count)\<close>:
  \<^verbatim>\<open>len_ = (count < N) ? count : N; for (...) data_[i] = str[i]; data_[len_] = CharT{};\<close>
\<close>

definition cs_assign_impl :: "nat \<Rightarrow> 'a::zero fstring \<Rightarrow> 'a list \<Rightarrow> nat \<Rightarrow> 'a fstring" where
  "cs_assign_impl N s str count =
     (let len' = (if count < N then count else N);
          d = copy_loop (data s) 0 str 0 len'
      in \<lparr>data = d[len' := 0], len = len'\<rparr>)"

text \<open>
  The constructors \<^verbatim>\<open>string(const CharT (&str)[M])\<close> (with \<open>count = M - 1\<close>),
  \<^verbatim>\<open>string(const string<CharT, M>& other)\<close> (with \<open>count = other.length()\<close>) and
  \<^verbatim>\<open>string(const CharT* str)\<close> (with \<open>count = strlen(str)\<close>): the members are
  default-initialised, then \<^verbatim>\<open>assign_impl(str, count)\<close> runs.
\<close>

definition cs_string :: "nat \<Rightarrow> 'a::zero list \<Rightarrow> nat \<Rightarrow> 'a fstring" where
  "cs_string N str count = cs_assign_impl N (empty_string N) str count"

text \<open>
  fstring_core.hpp, \<^verbatim>\<open>basic_fstring::store(const_pointer str, size_type len)\<close>; the pointer
  may be null (\<open>None\<close>).
\<close>

definition fs_store :: "nat \<Rightarrow> 'a::zero fstring \<Rightarrow> 'a list option \<Rightarrow> nat \<Rightarrow> 'a fstring" where
  "fs_store cap s str n =
     (case str of
        None \<Rightarrow> s
      | Some src \<Rightarrow>
          (let length' = detail_min cap n;
               d = detail_copy (data s) 0 src length'
           in \<lparr>data = d[length' := 0], len = length'\<rparr>))"

text \<open>
  \<^verbatim>\<open>basic_fstring(const_pointer str, size_type len) { if (str) store(str, len); }\<close>; the
  constructors from a literal, a view and a standard string reach \<^verbatim>\<open>store\<close> the same way.
\<close>

definition fs_string :: "nat \<Rightarrow> 'a::zero list option \<Rightarrow> nat \<Rightarrow> 'a fstring" where
  "fs_string cap str n = (case str of None \<Rightarrow> empty_string cap | Some src \<Rightarrow> fs_store cap (empty_string cap) (Some src) n)"

subsection \<open>Checked element access\<close>

text \<open>\<^verbatim>\<open>std::out_of_range\<close>, the one failure of the core.\<close>

datatype error = IndexError

text \<open>
  constant_string.hpp, \<^verbatim>\<open>string::at\<close>:
  \<^verbatim>\<open>if (pos >= len_) throw std::out_of_range(...); return data_[pos];\<close>
\<close>

definition cs_at :: "'a fstring \<Rightarrow> nat \<Rightarrow> error + 'a" where
  "cs_at s pos = (if pos \<ge> len s then Inl IndexError else Inr (data s ! pos))"

text \<open>
  fstring_core.hpp, \<^verbatim>\<open>basic_fstring::at\<close>: the test is compiled in only under
  \<^verbatim>\<open>if constexpr (config::enable_bounds_check)\<close>; fstring_config.hpp sets that constant
  to \<open>true\<close> unless the macro \<^verbatim>\<open>FSTRING_DISABLE_BOUNDS_CHECK\<close> is defined. The constant is
  the first argument. With the test compiled out, \<^verbatim>\<open>data_[index]\<close> is read whatever the
  index (beyond the array the read is undefined in C++, unspecified here).
\<close>

definition fs_at :: "bool \<Rightarrow> 'a fstring \<Rightarrow> nat \<Rightarrow> error + 'a" where
  "fs_at enable_bounds_check s index =
     (if enable_bounds_check \<and> index \<ge> len s then Inl IndexError else Inr (data s ! index))"

subsection \<open>Append\<close>

text \<open>\<^verbatim>\<open>available()\<close>: \<^verbatim>\<open>return N - len_;\<close> (exact under I2) and \<^verbatim>\<open>full()\<close>.\<close>

definition available :: "nat \<Rightarrow> 'a fstring \<Rightarrow> nat" where
  "available cap s = cap - len s"

definition fs_full :: "nat \<Rightarrow> 'a fstring \<Rightarrow> bool" where
  "fs_full cap s \<longleftrightarrow> len s = cap"

text \<open>
  constant_string_core.hpp, \<^verbatim>\<open>size_type string::append(const CharT* str, size_type count)\<close>.
  The result pairs the new string with the returned count.
\<close>

definition cs_append :: "nat \<Rightarrow> 'a::zero fstring \<Rightarrow> 'a list option \<Rightarrow> nat \<Rightarrow> 'a fstring \<times> nat" where
  "cs_append N s str count =
     (case str of
        None \<Rightarrow> (s, 0)
      | Some src \<Rightarrow>
          if count = 0 \<or> len s \<ge> N then (s, 0)
          else
            (let to_copy = min count (N - len s);
                 d = memcpy_string (data s) (len s) src to_copy;
                 len' = len s + to_copy
             in (\<lparr>data = d[len' := 0], len = len'\<rparr>, to_copy)))"

text \<open>constant_string_core.hpp, \<^verbatim>\<open>size_type string::append(size_type count, CharT ch)\<close>.\<close>

definition cs_append_fill :: "nat \<Rightarrow> 'a::zero fstring \<Rightarrow> nat \<Rightarrow> 'a \<Rightarrow> 'a fstring \<times> nat" where
  "cs_append_fill N s count ch =
     (if count = 0 \<or> len s \<ge> N then (s, 0)
      else
        (let to_add = min count (N - len s);
             d = memset_string (data s) (len s) ch to_add;
             len' = len s + to_add
         in (\<lparr>data = d[len' := 0], len = len'\<rparr>, to_add)))"

text \<open>
  fstring_core.hpp, \<^verbatim>\<open>basic_fstring& basic_fstring::append(const_pointer str, size_type len)\<close>,
  which ends in \<^verbatim>\<open>return *this;\<close>: the value is the updated string.
\<close>

definition fs_append :: "nat \<Rightarrow> 'a::zero fstring \<Rightarrow> 'a list option \<Rightarrow> nat \<Rightarrow> 'a fstring" where
  "fs_append cap s str n =
     (case str of
        None \<Rightarrow> s
      | Some src \<Rightarrow>
          if fs_full cap s then s
          else
            (let count = detail_min (available cap s) n;
                 d = detail_copy (data s) (len s) src count;
                 length' = len s + count
             in \<lparr>data = d[length' := 0], len = length'\<rparr>))"

subsection \<open>Single-unit append, clear, and \<^verbatim>\<open>algorithms::split\<close>\<close>

text \<open>fstring_core.hpp: \<^verbatim>\<open>empty()\<close> is \<^verbatim>\<open>length_ == 0\<close>.\<close>

definition fs_empty :: "'a fstring \<Rightarrow> bool" where
  "fs_empty s \<longleftrightarrow> len s = 0"

text \<open>\<^verbatim>\<open>clear()\<close>: \<^verbatim>\<open>length_ = 0; data_[0] = value_type{};\<close> The other units stay as they were.\<close>

definition fs_clear :: "'a::zero fstring \<Rightarrow> 'a fstring" where
  "fs_clear s = \<lparr>data = (data s)[0 := 0], len = 0\<rparr>"

text \<open>
  \<^verbatim>\<open>append(value_type ch)\<close>:
  \<^verbatim>\<open>if (!full()) { data_[length_++] = ch; data_[length_] = value_type{}; }\<close>
\<close>

definition fs_append_char :: "nat \<Rightarrow> 'a::zero fstring \<Rightarrow> 'a \<Rightarrow> 'a fstring" where
  "fs_append_char cap s ch =
     (if \<not> fs_full cap s
      then \<lparr>data = (data s)[len s := ch, len s + 1 := 0], len = len s + 1\<rparr>
      else s)"

text \<open>
  What an \<^verbatim>\<open>append\<close> call evaluates to. The members of \<^verbatim>\<open>string\<close> are declared
  \<^verbatim>\<open>constexpr size_type append(...)\<close> and end in \<^verbatim>\<open>return to_copy;\<close> or
  \<^verbatim>\<open>return to_add;\<close>: the call is the count. The members of \<^verbatim>\<open>basic_fstring\<close> are declared
  \<^verbatim>\<open>constexpr basic_fstring& append(...)\<close> and end in \<^verbatim>\<open>return *this;\<close>: the call is the
  string that was just updated, and no count leaves the function.
\<close>

datatype 'a returned = Count nat | This "'a fstring"

definition cs_append_returned :: "nat \<Rightarrow> 'a::zero fstring \<Rightarrow> 'a list option \<Rightarrow> nat \<Rightarrow> 'a returned" where
  "cs_append_returned N s str count = Count (snd (cs_append N s str count))"

definition cs_append_fill_returned :: "nat \<Rightarrow> 'a::zero fstring \<Rightarrow> nat \<Rightarrow> 'a \<Rightarrow> 'a returned" where
  "cs_append_fill_returned N s count ch = Count (snd (cs_append_fill N s count ch))"

definition fs_append_returned :: "nat \<Rightarrow> 'a::zero fstring \<Rightarrow> 'a list option \<Rightarrow> nat \<Rightarrow> 'a returned" where
  "fs_append_returned cap s str n = This (fs_append cap s str n)"

definition fs_append_char_returned :: "nat \<Rightarrow> 'a::zero fstring \<Rightarrow> 'a \<Rightarrow> 'a returned" where
  "fs_append_char_returned cap s ch = This (fs_append_char cap s ch)"

text \<open>
  fstring_algorithms.hpp, \<^verbatim>\<open>split\<close>: the local \<^verbatim>\<open>struct result_t\<close> with the array
  \<^verbatim>\<open>parts[MaxParts]\<close> and the counter \<^verbatim>\<open>count\<close>.
\<close>

record 'a split_result =
  parts :: "'a fstring list"
  count :: nat

text \<open>
  The loop \<^verbatim>\<open>for (i = 0; i < str.length() && result.count < MaxParts; ++i)\<close>; its state is
  the index, the result and the pending segment \<^verbatim>\<open>current\<close>, a string of the same
  capacity as the input.
\<close>

function split_loop ::
  "nat \<Rightarrow> nat \<Rightarrow> 'a::zero fstring \<Rightarrow> 'a \<Rightarrow> nat \<Rightarrow> 'a split_result \<Rightarrow> 'a fstring
     \<Rightarrow> 'a split_result \<times> 'a fstring" where
  "split_loop cap MaxParts str delimiter i result current =
     (if i < len str \<and> count result < MaxParts then
        (if data str ! i = delimiter then
           (if \<not> fs_empty current then
              split_loop cap MaxParts str delimiter (i + 1)
                \<lparr>parts = (parts result)[count result := current], count = count result + 1\<rparr>
                (fs_clear current)
            else split_loop cap MaxParts str delimiter (i + 1) result current)
         else split_loop cap MaxParts str delimiter (i + 1) result
                (fs_append_char cap current (data str ! i)))
      else (result, current))"
  by pat_completeness auto
termination
  by (relation "measure (\<lambda>(cap, MaxParts, str, delimiter, i, result, current). len str - i)") auto

text \<open>
  After the loop:
  \<^verbatim>\<open>if (!current.empty() && result.count < MaxParts) result.parts[result.count++] = current;\<close>
\<close>

definition split_finish :: "nat \<Rightarrow> 'a split_result \<times> 'a fstring \<Rightarrow> 'a split_result" where
  "split_finish MaxParts rc =
     (case rc of (result, current) \<Rightarrow>
        if \<not> fs_empty current \<and> count result < MaxParts
        then \<lparr>parts = (parts result)[count result := current], count = count result + 1\<rparr>
        else result)"

text \<open>\<^verbatim>\<open>split(str, delimiter)\<close>, with \<open>MaxParts\<close> (16 by default) as a parameter.\<close>

definition split :: "nat \<Rightarrow> nat \<Rightarrow> 'a::zero fstring \<Rightarrow> 'a \<Rightarrow> 'a split_result" where
  "split cap MaxParts str delimiter =
     split_finish MaxParts
       (split_loop cap MaxParts str delimiter 0
          \<lparr>parts = replicate MaxParts (empty_string cap), count = 0\<rparr> (empty_string cap))"

text \<open>The segments produced: the contents of \<^verbatim>\<open>parts[0, count)\<close>.\<close>

definition segments :: "'a split_result \<Rightarrow> 'a list list" where
  "segments r = map content (take (count r) (parts r))"

text \<open>
  The reference for \<open>split\<close>, following the specification's words: \<open>pieces d xs\<close> are all
  the delimiter-free runs of \<open>xs\<close> from left to right, the empty ones between adjacent
  delimiters and at either end included (the naive split). The specification's split keeps
  the non-empty ones, at most \<open>MaxParts\<close> of them.
\<close>

fun pieces :: "'a \<Rightarrow> 'a list \<Rightarrow> 'a list list" where
  "pieces d [] = [[]]"
| "pieces d (x # xs) =
     (if x = d then [] # pieces d xs
      else (x # hd (pieces d xs)) # tl (pieces d xs))"

subsection \<open>Numeric conversions (fstring_convertions.hpp)\<close>

text \<open>
  Character units are modelled by their integer values (what C++ computes with after
  integral promotion): \<open>lit\<close> maps a literal to them, \<open>of_char CHR ''0''\<close> is
  \<^verbatim>\<open>CharT('0')\<close>. An integer type \<^verbatim>\<open>IntT\<close> of \<open>w\<close> bits is \<open>'w word\<close>, with
  \<^verbatim>\<open>std::is_signed_v<IntT>\<close> passed as the flag \<open>is_signed\<close>; arithmetic on it wraps modulo
  \<open>2 ^ w\<close>. For a signed \<^verbatim>\<open>IntT\<close> C++ leaves overflow undefined; \<^verbatim>\<open>parse_int\<close> is
  modelled with the two's-complement result, and the negation in
  \<^verbatim>\<open>to_fstring(IntT value, int base)\<close> with the undefined case as a failure.

  \<^verbatim>\<open>parse_int\<close>, the digit of a unit:
  \<^verbatim>\<open>int digit = -1; if (ch >= '0' && ch <= '9') digit = ch - '0'; else if (ch >= 'a' && ch <= 'z')
  digit = 10 + (ch - 'a'); else if (ch >= 'A' && ch <= 'Z') digit = 10 + (ch - 'A');\<close>
\<close>

definition digit_of_unit :: "int \<Rightarrow> int" where
  "digit_of_unit ch =
     (if ch \<ge> of_char CHR ''0'' \<and> ch \<le> of_char CHR ''9'' then ch - of_char CHR ''0''
      else if ch \<ge> of_char CHR ''a'' \<and> ch \<le> of_char CHR ''z'' then 10 + (ch - of_char CHR ''a'')
      else if ch \<ge> of_char CHR ''A'' \<and> ch \<le> of_char CHR ''Z'' then 10 + (ch - of_char CHR ''A'')
      else - 1)"

text \<open>
  The loop \<^verbatim>\<open>for (; i < str.length(); ++i)\<close> of \<^verbatim>\<open>parse_int\<close>, which leaves at the first
  unit that is no digit of the base: \<^verbatim>\<open>if (digit < 0 || digit >= base) break;
  result = result * base + digit;\<close>
\<close>

function parse_int_loop :: "int fstring \<Rightarrow> int \<Rightarrow> nat \<Rightarrow> 'w::len word \<Rightarrow> 'w word" where
  "parse_int_loop str base i result =
     (if i < len str then
        (let ch = data str ! i;
             digit = digit_of_unit ch
         in if digit < 0 \<or> digit \<ge> base then result
            else parse_int_loop str base (i + 1) (result * word_of_int base + word_of_int digit))
      else result)"
  by pat_completeness auto
termination
  by (relation "measure (\<lambda>(str, base, i, result). len str - i)") auto

text \<open>
  \<^verbatim>\<open>parse_int<IntT>(str, base)\<close>: the empty string gives \<^verbatim>\<open>IntT{}\<close>; a signed target
  reads one leading \<^verbatim>\<open>'-'\<close> or \<^verbatim>\<open>'+'\<close>; the result is \<^verbatim>\<open>negative ? -result : result\<close>.
\<close>

definition parse_int :: "bool \<Rightarrow> int fstring \<Rightarrow> int \<Rightarrow> 'w::len word" where
  "parse_int is_signed str base =
     (if fs_empty str then 0
      else
        (let negative = (is_signed \<and> data str ! 0 = of_char CHR ''-'');
             i = (if is_signed \<and> (data str ! 0 = of_char CHR ''-'' \<or> data str ! 0 = of_char CHR ''+'')
                  then 1 else 0);
             result = parse_int_loop str base i 0
         in if negative then - result else result))"

text \<open>
  \<^verbatim>\<open>to_fstring(IntT value, int base)\<close>, the digit loop
  \<^verbatim>\<open>while (uvalue > 0) { int digit = uvalue % base; buffer[pos++] = (digit < 10) ? '0' + digit
  : 'a' + (digit - 10); uvalue /= base; }\<close> on the unsigned value; \<open>buffer\<close> holds
  \<^verbatim>\<open>buffer[0, pos)\<close>. The loop runs only behind the guard \<^verbatim>\<open>base < 2 || base > 36\<close>; the
  conjunct \<open>2 \<le> base\<close> repeats that guard so that the recursion is total.
\<close>

function to_fstring_digits :: "nat \<Rightarrow> nat \<Rightarrow> int list \<Rightarrow> int list" where
  "to_fstring_digits base uvalue buffer =
     (if uvalue > 0 \<and> 2 \<le> base then
        (let digit = uvalue mod base
         in to_fstring_digits base (uvalue div base)
              (buffer @ [if digit < 10 then of_char CHR ''0'' + int digit
                         else of_char CHR ''a'' + (int digit - 10)]))
      else buffer)"
  by pat_completeness auto
termination
  by (relation "measure (\<lambda>(base, uvalue, buffer). uvalue)") auto

text \<open>\<^verbatim>\<open>while (pos > 0) { result.append(buffer[--pos]); }\<close>\<close>

fun append_reversed :: "nat \<Rightarrow> int fstring \<Rightarrow> int list \<Rightarrow> nat \<Rightarrow> int fstring" where
  "append_reversed cap result buffer 0 = result"
| "append_reversed cap result buffer (Suc pos) =
     append_reversed cap (fs_append_char cap result (buffer ! pos)) buffer pos"

text \<open>
  The two ways in which a call of \<^verbatim>\<open>to_fstring(IntT value, int base)\<close> yields no string:
  the call does not compile, or its evaluation has undefined behaviour.
\<close>

datatype failure = Ill_formed | Undefined

text \<open>
  The width of \<^verbatim>\<open>int\<close>, to which an operand of a narrower type is promoted: 32 bits on
  the platforms the library builds for.
\<close>

definition int_bits :: nat where
  "int_bits = 32"

text \<open>
  \<^verbatim>\<open>static_cast<UIntT>(-value)\<close> for a negative \<open>value\<close> of a signed \<^verbatim>\<open>IntT\<close>. An operand
  narrower than \<^verbatim>\<open>int\<close> is promoted and its negation is exact; for \<^verbatim>\<open>int\<close> and the
  wider types the negation of the minimum value overflows, which is undefined.
\<close>

definition negate_value :: "'w::len word \<Rightarrow> failure + 'w word" where
  "negate_value v =
     (if int_bits \<le> LENGTH('w) \<and> sint v = - (2 ^ (LENGTH('w) - 1)) then Inl Undefined
      else Inr (- v))"

text \<open>
  The statements of \<^verbatim>\<open>to_fstring(IntT value, int base)\<close>: a base outside 2..36 gives
  \<^verbatim>\<open>basic_fstring<CharT, 1>{}\<close>; otherwise \<open>result\<close> has capacity
  \<^verbatim>\<open>max_size = sizeof(IntT) * 8 + 2\<close>, and a negative value of a signed type is written as
  \<^verbatim>\<open>'-'\<close> and the digits of \<^verbatim>\<open>static_cast<UIntT>(-value)\<close>.
\<close>

definition to_fstring_body :: "bool \<Rightarrow> 'w::len word \<Rightarrow> int \<Rightarrow> failure + int fstring" where
  "to_fstring_body is_signed v base =
     (if base < 2 \<or> base > 36 then Inr (empty_string 1)
      else
        (let max_size = LENGTH('w) + 2;
             result = empty_string max_size
         in if v = 0 then Inr (fs_append_char max_size result (of_char CHR ''0''))
            else
              (let negative = (is_signed \<and> sint v < 0)
               in case (if negative then negate_value v else Inr v) of
                    Inl e \<Rightarrow> Inl e
                  | Inr uvalue \<Rightarrow>
                      (let buffer = to_fstring_digits (nat base) (unat uvalue) [];
                           result' = (if negative
                                      then fs_append_char max_size result (of_char CHR ''-'')
                                      else result)
                       in Inr (append_reversed max_size result' buffer (length buffer))))))"

text \<open>
  The function is declared \<^verbatim>\<open>constexpr auto to_fstring(IntT value, int base) noexcept\<close>:
  its return type is deduced from its \<^verbatim>\<open>return\<close> statements. They are, in order,
  \<^verbatim>\<open>return basic_fstring<CharT, 1>{};\<close> and twice \<^verbatim>\<open>return result;\<close> with
  \<^verbatim>\<open>basic_fstring<CharT, max_size> result\<close>. The capacity is part of the type of a
  \<^verbatim>\<open>basic_fstring\<close>, so the list of the capacities stands for the list of the types.
\<close>

definition to_fstring_base_returns :: "nat \<Rightarrow> nat list" where
  "to_fstring_base_returns bits = [1, bits + 2, bits + 2]"

text \<open>
  Return type deduction: every \<^verbatim>\<open>return\<close> statement must deduce the same type, or the
  function is ill-formed when it is instantiated.
\<close>

definition deduced_return :: "nat list \<Rightarrow> nat option" where
  "deduced_return caps =
     (case caps of
        [] \<Rightarrow> None
      | c # cs \<Rightarrow> if list_all (\<lambda>d. d = c) cs then Some c else None)"

text \<open>A call of \<^verbatim>\<open>to_fstring<IntT>(value, base)\<close>, which instantiates the function.\<close>

definition to_fstring_base :: "bool \<Rightarrow> 'w::len word \<Rightarrow> int \<Rightarrow> failure + int fstring" where
  "to_fstring_base is_signed v base =
     (case deduced_return (to_fstring_base_returns LENGTH('w)) of
        None \<Rightarrow> Inl Ill_formed
      | Some cap \<Rightarrow> to_fstring_body is_signed v base)"

text \<open>
  The decimal overload \<^verbatim>\<open>to_fstring(IntT value)\<close> of the same header.
  \<^verbatim>\<open>std::numeric_limits<IntT>::digits10\<close> is the number of decimal digits that every
  value of the type can hold, \<open>\<lfloor>log\<^sub>1\<^sub>0 (2 ^ digits)\<rfloor>\<close>, with \<open>digits\<close> the number of value
  bits: the width, less the sign bit of a signed type.
\<close>

definition digits10 :: "bool \<Rightarrow> nat \<Rightarrow> nat" where
  "digits10 is_signed bits = floorlog 10 (2 ^ (if is_signed then bits - 1 else bits)) - 1"

text \<open>
  \<^verbatim>\<open>while (uvalue > 0) { buffer[pos++] = CharT('0') + (uvalue % 10); uvalue /= 10; }\<close>
\<close>

function to_fstring_decimal_digits :: "nat \<Rightarrow> int list \<Rightarrow> int list" where
  "to_fstring_decimal_digits uvalue buffer =
     (if uvalue > 0 then
        to_fstring_decimal_digits (uvalue div 10)
          (buffer @ [of_char CHR ''0'' + int (uvalue mod 10)])
      else buffer)"
  by pat_completeness auto
termination
  by (relation "measure (\<lambda>(uvalue, buffer). uvalue)") auto

text \<open>
  \<^verbatim>\<open>to_fstring(IntT value)\<close>: every \<^verbatim>\<open>return\<close> statement returns \<open>result\<close>, of capacity
  \<^verbatim>\<open>max_digits = digits10 + 3\<close>; the magnitude of a negative value is
  \<^verbatim>\<open>static_cast<UIntT>(-(value + 1)) + 1\<close>, which overflows for no value.
\<close>

definition to_fstring :: "bool \<Rightarrow> 'w::len word \<Rightarrow> int fstring" where
  "to_fstring is_signed v =
     (let max_digits = digits10 is_signed LENGTH('w) + 3;
          result = empty_string max_digits
      in if v = 0 then fs_append_char max_digits result (of_char CHR ''0'')
         else
           (let negative = (is_signed \<and> sint v < 0);
                uvalue = (if negative then - (v + 1) + 1 else v);
                buffer = to_fstring_decimal_digits (unat uvalue) [];
                result' = (if negative
                           then fs_append_char max_digits result (of_char CHR ''-'')
                           else result)
            in append_reversed max_digits result' buffer (length buffer)))"

text \<open>A unit at which the loop of \<^verbatim>\<open>parse_int\<close> goes on: the negation of its \<^verbatim>\<open>break\<close> test.\<close>

definition valid_digit :: "int \<Rightarrow> int \<Rightarrow> bool" where
  "valid_digit base ch \<longleftrightarrow> \<not> (digit_of_unit ch < 0 \<or> digit_of_unit ch \<ge> base)"

text \<open>
  The reference for the parsed value, following the specification's words: the number a
  digit string denotes in the base, as an unbounded integer.
\<close>

definition digits_value :: "int \<Rightarrow> int list \<Rightarrow> int" where
  "digits_value base ds = foldl (\<lambda>v ch. v * base + digit_of_unit ch) 0 ds"

text \<open>
  \<^verbatim>\<open>parse_float<FloatT>\<close>. Floating-point arithmetic is not modelled: the operations of
  \<^verbatim>\<open>FloatT\<close> that the function uses are the fields of a record, and the theorems hold
  for every such record. \<open>fzero\<close> is \<^verbatim>\<open>FloatT{}\<close> and the literal \<^verbatim>\<open>0\<close>, \<open>fint\<close> the
  conversion from an integer, \<open>ftenth\<close> the literal \<^verbatim>\<open>0.1\<close>, \<open>fpow10 e\<close> is
  \<^verbatim>\<open>std::pow(FloatT(10), e)\<close>. The predicate \<^verbatim>\<open>detail::is_digit\<close> of the absent
  fstring_utils.hpp is the parameter \<open>is_digit\<close>. The exponent is an unbounded integer
  (C++ leaves the overflow of its \<^verbatim>\<open>int\<close> undefined).
\<close>

record 'f float_ops =
  fzero :: 'f
  fadd :: "'f \<Rightarrow> 'f \<Rightarrow> 'f"
  fmul :: "'f \<Rightarrow> 'f \<Rightarrow> 'f"
  fneg :: "'f \<Rightarrow> 'f"
  fint :: "int \<Rightarrow> 'f"
  ftenth :: 'f
  fpow10 :: "int \<Rightarrow> 'f"

text \<open>
  \<^verbatim>\<open>while (i < str.length() && detail::is_digit(str[i])) { result = result * 10 +
  (str[i] - CharT('0')); ++i; }\<close>
\<close>

function float_int_loop ::
  "'f float_ops \<Rightarrow> (int \<Rightarrow> bool) \<Rightarrow> int fstring \<Rightarrow> nat \<Rightarrow> 'f \<Rightarrow> nat \<times> 'f" where
  "float_int_loop ops is_digit str i result =
     (if i < len str \<and> is_digit (data str ! i)
      then float_int_loop ops is_digit str (i + 1)
             (fadd ops (fmul ops result (fint ops 10)) (fint ops (data str ! i - of_char CHR ''0'')))
      else (i, result))"
  by pat_completeness auto
termination
  by (relation "measure (\<lambda>(ops, is_digit, str, i, result). len str - i)") auto

text \<open>
  \<^verbatim>\<open>while (...) { result += (str[i] - CharT('0')) * fraction; fraction *= 0.1; ++i; }\<close>
\<close>

function float_frac_loop ::
  "'f float_ops \<Rightarrow> (int \<Rightarrow> bool) \<Rightarrow> int fstring \<Rightarrow> nat \<Rightarrow> 'f \<Rightarrow> 'f \<Rightarrow> nat \<times> 'f" where
  "float_frac_loop ops is_digit str i result fraction =
     (if i < len str \<and> is_digit (data str ! i)
      then float_frac_loop ops is_digit str (i + 1)
             (fadd ops result (fmul ops (fint ops (data str ! i - of_char CHR ''0'')) fraction))
             (fmul ops fraction (ftenth ops))
      else (i, result))"
  by pat_completeness auto
termination
  by (relation "measure (\<lambda>(ops, is_digit, str, i, result, fraction). len str - i)") auto

text \<open>\<^verbatim>\<open>while (...) { exponent = exponent * 10 + (str[i] - CharT('0')); ++i; }\<close>\<close>

function float_exp_loop :: "(int \<Rightarrow> bool) \<Rightarrow> int fstring \<Rightarrow> nat \<Rightarrow> int \<Rightarrow> nat \<times> int" where
  "float_exp_loop is_digit str i exponent =
     (if i < len str \<and> is_digit (data str ! i)
      then float_exp_loop is_digit str (i + 1) (exponent * 10 + (data str ! i - of_char CHR ''0''))
      else (i, exponent))"
  by pat_completeness auto
termination
  by (relation "measure (\<lambda>(is_digit, str, i, exponent). len str - i)") auto

text \<open>\<^verbatim>\<open>parse_float\<close>: sign, integer part, decimal part, exponent part.\<close>

definition parse_float :: "'f float_ops \<Rightarrow> (int \<Rightarrow> bool) \<Rightarrow> int fstring \<Rightarrow> 'f" where
  "parse_float ops is_digit str =
     (if fs_empty str then fzero ops
      else
        (let negative = (data str ! 0 = of_char CHR ''-'');
             i0 = (if data str ! 0 = of_char CHR ''-'' \<or> data str ! 0 = of_char CHR ''+''
                   then 1 else 0);
             (i1, r1) = float_int_loop ops is_digit str i0 (fzero ops);
             (i2, r2) = (if i1 < len str \<and> data str ! i1 = of_char CHR ''.''
                         then float_frac_loop ops is_digit str (i1 + 1) r1 (ftenth ops)
                         else (i1, r1));
             r3 = (if i2 < len str \<and>
                      (data str ! i2 = of_char CHR ''e'' \<or> data str ! i2 = of_char CHR ''E'')
                   then
                     (let i3 = i2 + 1;
                          exp_negative = (i3 < len str \<and> data str ! i3 = of_char CHR ''-'');
                          i4 = (if exp_negative then i3 + 1
                                else if i3 < len str \<and> data str ! i3 = of_char CHR ''+''
                                then i3 + 1 else i3);
                          (i5, exponent) = float_exp_loop is_digit str i4 0;
                          exponent' = (if exp_negative then - exponent else exponent)
                      in fmul ops r2 (fpow10 ops exponent'))
                   else r2)
         in if negative then fneg ops r3 else r3))"

text \<open>
  No number starts at index \<open>i\<close>: the string ends there, or the unit there is neither a
  digit nor \<^verbatim>\<open>'.'\<close>, \<^verbatim>\<open>'e'\<close>, \<^verbatim>\<open>'E'\<close>.
\<close>

definition no_number_at :: "(int \<Rightarrow> bool) \<Rightarrow> int fstring \<Rightarrow> nat \<Rightarrow> bool" where
  "no_number_at is_digit str i \<longleftrightarrow>
     (i < len str \<longrightarrow>
        \<not> is_digit (data str ! i) \<and> data str ! i \<noteq> of_char CHR ''.'' \<and>
        data str ! i \<noteq> of_char CHR ''e'' \<and> data str ! i \<noteq> of_char CHR ''E'')"

subsection \<open>Search, comparison, erase\<close>

text \<open>
  constant_string.hpp, \<^verbatim>\<open>detail::strlen\<close>: \<^verbatim>\<open>while (str[len] != CharT{}) ++len;\<close>
  A C string is the list of the units at the pointer, terminator included; the model stops
  at the end of the list, where C++ would read past the array.
\<close>

function strlen_loop :: "'a::zero list \<Rightarrow> nat \<Rightarrow> nat" where
  "strlen_loop str n = (if n < length str \<and> str ! n \<noteq> 0 then strlen_loop str (Suc n) else n)"
  by pat_completeness auto
termination
  by (relation "measure (\<lambda>(str, n). length str - n)") auto

definition strlen :: "'a::zero list \<Rightarrow> nat" where
  "strlen str = strlen_loop str 0"

text \<open>
  constant_string.hpp, \<^verbatim>\<open>string::find(const CharT* str, size_type pos)\<close>: the inner loop
  \<^verbatim>\<open>for (j = 0; j < str_len; ++j) if (data_[i + j] != str[j]) { found = false; break; }\<close>
\<close>

function cs_find_match :: "'a list \<Rightarrow> nat \<Rightarrow> 'a list \<Rightarrow> nat \<Rightarrow> nat \<Rightarrow> bool" where
  "cs_find_match d i str str_len j =
     (if j < str_len then
        (if d ! (i + j) \<noteq> str ! j then False else cs_find_match d i str str_len (j + 1))
      else True)"
  by pat_completeness auto
termination
  by (relation "measure (\<lambda>(d, i, str, str_len, j). str_len - j)") auto

text \<open>
  The outer loop \<^verbatim>\<open>for (i = pos; i <= len_ - str_len; ++i) { ... if (found) return i; }
  return npos;\<close> It runs only where \<open>str_len \<le> len_\<close>.
\<close>

function cs_find_loop :: "'a fstring \<Rightarrow> 'a list \<Rightarrow> nat \<Rightarrow> nat \<Rightarrow> nat" where
  "cs_find_loop s str str_len i =
     (if i \<le> len s - str_len then
        (if cs_find_match (data s) i str str_len 0 then i
         else cs_find_loop s str str_len (i + 1))
      else npos)"
  by pat_completeness auto
termination
  by (relation "measure (\<lambda>(s, str, str_len, i). Suc (len s - str_len) - i)") auto

text \<open>
  \<^verbatim>\<open>if (str_len == 0) return pos <= len_ ? pos : npos; if (str_len > len_) return npos;\<close>
  and then the loop.
\<close>

definition cs_find :: "'a::zero fstring \<Rightarrow> 'a list \<Rightarrow> nat \<Rightarrow> nat" where
  "cs_find s str pos =
     (let str_len = strlen str
      in if str_len = 0 then (if pos \<le> len s then pos else npos)
         else if str_len > len s then npos
         else cs_find_loop s str str_len pos)"

text \<open>
  fstring_core.hpp, \<^verbatim>\<open>basic_fstring::find(const_pointer str, size_type pos)\<close>:
  \<^verbatim>\<open>if (str == nullptr || pos >= length_) return npos; size_type len = detail::length(str);
  auto result = detail::find_str(data_ + pos, length_ - pos, str, len);
  return result ? static_cast<size_type>(result - data_) : npos;\<close>
  \<^verbatim>\<open>detail::length\<close> and \<^verbatim>\<open>detail::find_str\<close> belong to the absent fstring_utils.hpp and
  are parameters: \<open>find_str\<close> returns the offset of its result from the start of the
  haystack, or \<open>None\<close> for the null pointer.
\<close>

definition fs_find ::
  "('a list \<Rightarrow> nat) \<Rightarrow> ('a list \<Rightarrow> nat \<Rightarrow> 'a list \<Rightarrow> nat \<Rightarrow> nat option) \<Rightarrow>
   'a fstring \<Rightarrow> 'a list option \<Rightarrow> nat \<Rightarrow> nat" where
  "fs_find detail_length find_str s str pos =
     (case str of
        None \<Rightarrow> npos
      | Some needle \<Rightarrow>
          if pos \<ge> len s then npos
          else
            (let n = detail_length needle
             in case find_str (drop pos (data s)) (len s - pos) needle n of
                  None \<Rightarrow> npos
                | Some off \<Rightarrow> pos + off))"

text \<open>
  constant_string.hpp, \<^verbatim>\<open>detail::strcmp(a, b, len)\<close>:
  \<^verbatim>\<open>for (i = 0; i < len; ++i) { if (a[i] < b[i]) return -1; if (a[i] > b[i]) return 1; }
  return 0;\<close> The order of the units is the order of \<^verbatim>\<open>CharT\<close>.
\<close>

function strcmp_loop :: "'a::linorder list \<Rightarrow> 'a list \<Rightarrow> nat \<Rightarrow> nat \<Rightarrow> int" where
  "strcmp_loop a b i n =
     (if i < n then
        (if a ! i < b ! i then - 1
         else if a ! i > b ! i then 1
         else strcmp_loop a b (i + 1) n)
      else 0)"
  by pat_completeness auto
termination
  by (relation "measure (\<lambda>(a, b, i, n). n - i)") auto

text \<open>constant_string.hpp, \<^verbatim>\<open>string::compare(const string<CharT, M>& other)\<close>.\<close>

definition cs_compare :: "'a::linorder fstring \<Rightarrow> 'a fstring \<Rightarrow> int" where
  "cs_compare s other =
     (let min_len = min (len s) (len other);
          result = strcmp_loop (data s) (data other) 0 min_len
      in if result \<noteq> 0 then result
         else if len s < len other then - 1
         else if len s > len other then 1
         else 0)"

text \<open>\<^verbatim>\<open>operator==\<close>: \<^verbatim>\<open>return compare(other) == 0;\<close>\<close>

definition cs_eq :: "'a::linorder fstring \<Rightarrow> 'a fstring \<Rightarrow> bool" where
  "cs_eq s other \<longleftrightarrow> cs_compare s other = 0"

text \<open>\<^verbatim>\<open>std::strong_ordering\<close>.\<close>

datatype ordering = Less | Equal | Greater

text \<open>
  \<^verbatim>\<open>operator<=>\<close> of \<^verbatim>\<open>string\<close>: \<^verbatim>\<open>less\<close> if \<^verbatim>\<open>compare(other) < 0\<close>, \<^verbatim>\<open>greater\<close> if
  it is positive, \<^verbatim>\<open>equal\<close> otherwise.
\<close>

definition cs_spaceship :: "'a::linorder fstring \<Rightarrow> 'a fstring \<Rightarrow> ordering" where
  "cs_spaceship s other =
     (let cmp = cs_compare s other
      in if cmp < 0 then Less else if cmp > 0 then Greater else Equal)"

text \<open>
  Modelled from the spec: \<^verbatim>\<open>detail::compare{}(a, b, n)\<close> of the absent fstring_utils.hpp,
  "lexicographic, unit-by-unit" on \<open>n\<close> units, zero when they agree.
\<close>

definition detail_compare :: "'a::linorder list \<Rightarrow> 'a list \<Rightarrow> nat \<Rightarrow> int" where
  "detail_compare a b n = strcmp_loop a b 0 n"

text \<open>
  fstring_core.hpp, \<^verbatim>\<open>basic_fstring::operator==(const Other<N>& other)\<close>:
  \<^verbatim>\<open>int cmp = detail::compare{}(data_, other.data_, detail::min{}(length_, other.length_));
  if (cmp != 0) return cmp == 0; return length_ == other.length_;\<close>
\<close>

definition fs_eq :: "'a::linorder fstring \<Rightarrow> 'a fstring \<Rightarrow> bool" where
  "fs_eq s other =
     (let cmp = detail_compare (data s) (data other) (detail_min (len s) (len other))
      in if cmp \<noteq> 0 then cmp = 0 else len s = len other)"

text \<open>
  fstring_core.hpp: \<^verbatim>\<open>auto operator<=>(const basic_fstring& other) const noexcept = default;\<close>
  The defaulted comparison of C++20 compares the members in declaration order: first the
  array \<^verbatim>\<open>data_[Cap + 1]\<close>, element by element over all \<open>Cap + 1\<close> elements, then
  \<^verbatim>\<open>length_\<close>. The comparison of the arrays:
\<close>

function array_spaceship :: "'a::linorder list \<Rightarrow> 'a list \<Rightarrow> nat \<Rightarrow> nat \<Rightarrow> ordering" where
  "array_spaceship a b i n =
     (if i < n then
        (if a ! i < b ! i then Less
         else if b ! i < a ! i then Greater
         else array_spaceship a b (i + 1) n)
      else Equal)"
  by pat_completeness auto
termination
  by (relation "measure (\<lambda>(a, b, i, n). n - i)") auto

text \<open>The defaulted \<^verbatim>\<open>operator<=>\<close> of \<^verbatim>\<open>basic_fstring\<close>.\<close>

definition fs_spaceship :: "nat \<Rightarrow> 'a::linorder fstring \<Rightarrow> 'a fstring \<Rightarrow> ordering" where
  "fs_spaceship cap s other =
     (case array_spaceship (data s) (data other) 0 (cap + 1) of
        Equal \<Rightarrow> (if len s < len other then Less else if len other < len s then Greater else Equal)
      | c \<Rightarrow> c)"

text \<open>
  Modelled from the spec: \<^verbatim>\<open>detail::move{}(dst, src, n)\<close> of the absent fstring_utils.hpp,
  the copy of \<open>n\<close> units between overlapping ranges of one array ("left-shift of the
  tail"): the units are read before any is written.
\<close>

definition detail_move :: "'a list \<Rightarrow> nat \<Rightarrow> nat \<Rightarrow> nat \<Rightarrow> 'a list" where
  "detail_move buf dst_off src_off n = copy_loop buf dst_off (drop src_off buf) 0 n"

text \<open>Addition and subtraction of \<^verbatim>\<open>std::size_t\<close> (64 bits), for operands below \<open>2 ^ 64\<close>.\<close>

definition size_add :: "nat \<Rightarrow> nat \<Rightarrow> nat" where
  "size_add a b = (a + b) mod 2 ^ 64"

definition size_sub :: "nat \<Rightarrow> nat \<Rightarrow> nat" where
  "size_sub a b = (a + 2 ^ 64 - b mod 2 ^ 64) mod 2 ^ 64"

text \<open>
  fstring_core.hpp, \<^verbatim>\<open>basic_fstring::shift_left(index, count)\<close>:
  \<^verbatim>\<open>if (count == 0 || index >= length_) return; size_type move_count = length_ - index - count;
  detail::move{}(data_ + index, data_ + index + count, move_count);\<close>
  The source pointer is the offset \<open>index + count\<close>, reduced like the sizes; the length
  that \<^verbatim>\<open>erase\<close> computes does not depend on it.
\<close>

definition fs_shift_left :: "'a fstring \<Rightarrow> nat \<Rightarrow> nat \<Rightarrow> 'a fstring" where
  "fs_shift_left s index n =
     (if n = 0 \<or> index \<ge> len s then s
      else
        (let move_count = size_sub (size_sub (len s) index) n
         in s\<lparr>data := detail_move (data s) index (size_add index n) move_count\<rparr>))"

text \<open>
  fstring_core.hpp, \<^verbatim>\<open>basic_fstring::erase(index, count)\<close>:
  \<^verbatim>\<open>if (index < length_) { if (count == npos || index + count >= length_) length_ = index;
  else { shift_left(index, count); length_ -= count; } data_[length_] = value_type{}; }\<close>
\<close>

definition fs_erase :: "'a::zero fstring \<Rightarrow> nat \<Rightarrow> nat \<Rightarrow> 'a fstring" where
  "fs_erase s index n =
     (if index < len s then
        (let s' = (if n = npos \<or> size_add index n \<ge> len s then s\<lparr>len := index\<rparr>
                   else (fs_shift_left s index n)\<lparr>len := size_sub (len s) n\<rparr>)
         in s'\<lparr>data := (data s')[len s' := 0]\<rparr>)
      else s)"

text \<open>
  fstring_core.hpp, \<^verbatim>\<open>basic_fstring::operator=(value_type ch)\<close>:
  \<^verbatim>\<open>length_ = 1; data_[0] = ch; data_[1] = value_type{};\<close>
\<close>

definition fs_assign_char :: "'a::zero fstring \<Rightarrow> 'a \<Rightarrow> 'a fstring" where
  "fs_assign_char s ch = \<lparr>data = (data s)[0 := ch, 1 := 0], len = 1\<rparr>"

text \<open>
  Modelled from the spec: \<^verbatim>\<open>detail::memmove_string(dst, src, n)\<close> of the absent
  constant_string_detail.hpp, the copy of \<open>n\<close> units between overlapping ranges of one
  array ("left-shift of the tail"): the units are read before any is written.
\<close>

definition memmove_string :: "'a list \<Rightarrow> nat \<Rightarrow> nat \<Rightarrow> nat \<Rightarrow> 'a list" where
  "memmove_string buf dst_off src_off n = copy_loop buf dst_off (drop src_off buf) 0 n"

text \<open>
  constant_string_core.hpp, \<^verbatim>\<open>string::erase(pos, count)\<close>:
  \<^verbatim>\<open>if (pos >= len_) return *this; to_erase = std::min(count, len_ - pos);
  new_len = len_ - to_erase; to_move = len_ - (pos + to_erase);
  if (to_move > 0) memmove_string(data_ + pos, data_ + pos + to_erase, to_move);
  len_ = new_len; data_[len_] = CharT{};\<close>
\<close>

definition cs_erase :: "'a::zero fstring \<Rightarrow> nat \<Rightarrow> nat \<Rightarrow> 'a fstring" where
  "cs_erase s pos n =
     (if pos \<ge> len s then s
      else
        (let to_erase = min n (len s - pos);
             new_len = len s - to_erase;
             to_move = len s - (pos + to_erase);
             d = (if to_move > 0 then memmove_string (data s) pos (pos + to_erase) to_move
                  else data s)
         in \<lparr>data = d[new_len := 0], len = new_len\<rparr>))"

section \<open>Properties of the loops\<close>

text \<open>
  The equations of the loops are unfolded by hand, one step at a time, in the proofs below.
\<close>

declare copy_loop.simps [simp del] fill_loop.simps [simp del] split_loop.simps [simp del]
  parse_int_loop.simps [simp del] to_fstring_digits.simps [simp del]
  to_fstring_decimal_digits.simps [simp del]
  float_int_loop.simps [simp del] float_frac_loop.simps [simp del] float_exp_loop.simps [simp del]
  strlen_loop.simps [simp del] cs_find_match.simps [simp del] cs_find_loop.simps [simp del]
  strcmp_loop.simps [simp del] array_spaceship.simps [simp del]

lemma length_copy_loop: "length (copy_loop dst off src i n) = length dst"
proof (induction dst off src i n rule: copy_loop.induct)
  case (1 dst off src i n)
  then show ?case by (subst copy_loop.simps) simp
qed

lemma nth_copy_loop:
  "j < length dst \<Longrightarrow> copy_loop dst off src i n ! j =
     (if off + i \<le> j \<and> j < off + n then src ! (j - off) else dst ! j)"
proof (induction dst off src i n rule: copy_loop.induct)
  case (1 dst off src i n)
  show ?case
  proof (cases "i < n")
    case True
    have "copy_loop dst off src i n = copy_loop (dst[off + i := src ! i]) off src (Suc i) n"
      using True by (subst copy_loop.simps) simp
    moreover have "copy_loop (dst[off + i := src ! i]) off src (Suc i) n ! j =
        (if off + Suc i \<le> j \<and> j < off + n then src ! (j - off) else (dst[off + i := src ! i]) ! j)"
      using 1 True by simp
    ultimately show ?thesis
      using 1(2) True by (cases "j = off + i") (auto simp: nth_list_update)
  next
    case False
    then show ?thesis by (subst copy_loop.simps) auto
  qed
qed

lemma copy_loop_eq:
  assumes "off + n \<le> length dst" "n \<le> length src"
  shows "copy_loop dst off src 0 n = take off dst @ take n src @ drop (off + n) dst"
  using assms
  by (intro nth_equalityI) (auto simp: length_copy_loop nth_copy_loop nth_append min_def)

lemma length_fill_loop: "length (fill_loop dst off ch i n) = length dst"
proof (induction dst off ch i n rule: fill_loop.induct)
  case (1 dst off ch i n)
  then show ?case by (subst fill_loop.simps) simp
qed

lemma nth_fill_loop:
  "j < length dst \<Longrightarrow> fill_loop dst off ch i n ! j =
     (if off + i \<le> j \<and> j < off + n then ch else dst ! j)"
proof (induction dst off ch i n rule: fill_loop.induct)
  case (1 dst off ch i n)
  show ?case
  proof (cases "i < n")
    case True
    have "fill_loop dst off ch i n = fill_loop (dst[off + i := ch]) off ch (Suc i) n"
      using True by (subst fill_loop.simps) simp
    moreover have "fill_loop (dst[off + i := ch]) off ch (Suc i) n ! j =
        (if off + Suc i \<le> j \<and> j < off + n then ch else (dst[off + i := ch]) ! j)"
      using 1 True by simp
    ultimately show ?thesis
      using 1(2) True by (cases "j = off + i") (auto simp: nth_list_update)
  next
    case False
    then show ?thesis by (subst fill_loop.simps) auto
  qed
qed

lemma fill_loop_eq:
  assumes "off + n \<le> length dst"
  shows "fill_loop dst off ch 0 n = take off dst @ replicate n ch @ drop (off + n) dst"
  using assms
  by (intro nth_equalityI) (auto simp: length_fill_loop nth_fill_loop nth_append)

lemma detail_min_eq: "detail_min a b = min a b"
  by (simp add: detail_min_def min_def)

section \<open>Construction\<close>

lemma cs_assign_impl_props:
  assumes "length (data s) = cap + 1" "L \<le> length src"
  shows "len (cs_assign_impl cap s src L) = min L cap"
    and "take (min L cap) (data (cs_assign_impl cap s src L)) = take (min L cap) src"
    and "data (cs_assign_impl cap s src L) ! (min L cap) = 0"
    and "length (data (cs_assign_impl cap s src L)) = cap + 1"
proof -
  let ?l = "min L cap"
  have l: "(if L < cap then L else cap) = ?l" by (simp add: min_def)
  have c: "copy_loop (data s) 0 src 0 ?l = take ?l src @ drop ?l (data s)"
    using assms copy_loop_eq[of 0 ?l "data s" src] by simp
  show "len (cs_assign_impl cap s src L) = min L cap"
    by (simp add: cs_assign_impl_def l Let_def)
  show "take (min L cap) (data (cs_assign_impl cap s src L)) = take (min L cap) src"
    using assms by (simp add: cs_assign_impl_def l Let_def c)
  show "data (cs_assign_impl cap s src L) ! (min L cap) = 0"
    using assms by (simp add: cs_assign_impl_def l Let_def length_copy_loop)
  show "length (data (cs_assign_impl cap s src L)) = cap + 1"
    using assms by (simp add: cs_assign_impl_def l Let_def length_copy_loop)
qed

lemma fs_store_props:
  assumes "length (data s) = cap + 1" "L \<le> length src"
  shows "len (fs_store cap s (Some src) L) = min L cap"
    and "take (min L cap) (data (fs_store cap s (Some src) L)) = take (min L cap) src"
    and "data (fs_store cap s (Some src) L) ! (min L cap) = 0"
    and "length (data (fs_store cap s (Some src) L)) = cap + 1"
proof -
  let ?l = "min L cap"
  have l: "detail_min cap L = ?l" by (simp add: detail_min_eq min.commute)
  have c: "copy_loop (data s) 0 src 0 ?l = take ?l src @ drop ?l (data s)"
    using assms copy_loop_eq[of 0 ?l "data s" src] by simp
  show "len (fs_store cap s (Some src) L) = min L cap"
    by (simp add: fs_store_def l Let_def)
  show "take (min L cap) (data (fs_store cap s (Some src) L)) = take (min L cap) src"
    using assms by (simp add: fs_store_def detail_copy_def l Let_def c)
  show "data (fs_store cap s (Some src) L) ! (min L cap) = 0"
    using assms by (simp add: fs_store_def detail_copy_def l Let_def length_copy_loop)
  show "length (data (fs_store cap s (Some src) L)) = cap + 1"
    using assms by (simp add: fs_store_def detail_copy_def l Let_def length_copy_loop)
qed

text \<open>
  C3. Construction from a sequence \<open>src\<close> of \<open>L\<close> units gives a string of length
  \<open>min L cap\<close> whose first \<open>min L cap\<close> units are those of the source and whose unit at
  index \<open>length()\<close> is the terminator, in both classes. The constructors are \<^verbatim>\<open>noexcept\<close>
  and total: the result is a string, never an error.
\<close>

theorem construct_truncates:
  assumes "L \<le> length src"
  shows "len (cs_string cap src L) = min L cap \<and>
         take (min L cap) (data (cs_string cap src L)) = take (min L cap) src \<and>
         data (cs_string cap src L) ! len (cs_string cap src L) = 0 \<and>
         len (fs_string cap (Some src) L) = min L cap \<and>
         take (min L cap) (data (fs_string cap (Some src) L)) = take (min L cap) src \<and>
         data (fs_string cap (Some src) L) ! len (fs_string cap (Some src) L) = 0"
proof -
  have e: "length (data (empty_string cap :: 'a fstring)) = cap + 1"
    by (simp add: empty_string_def)
  show ?thesis
    using cs_assign_impl_props[OF e assms] fs_store_props[OF e assms]
    by (simp add: cs_string_def fs_string_def)
qed

theorem construct_truncates_witness:
  "len (cs_string 10 (lit ''hello world'') 11) = 10 \<and>
   take 10 (data (cs_string 10 (lit ''hello world'') 11)) = lit ''hello worl'' \<and>
   data (cs_string 10 (lit ''hello world'') 11) ! 10 = 0 \<and>
   len (fs_string 10 (Some (lit ''hello world'')) 11) = 10 \<and>
   take 10 (data (fs_string 10 (Some (lit ''hello world'')) 11)) = lit ''hello worl'' \<and>
   data (fs_string 10 (Some (lit ''hello world'')) 11) ! 10 = 0"
proof -
  have h: "11 \<le> length (lit ''hello world'')" by (simp add: lit_def)
  show ?thesis
    using construct_truncates[OF h, of 10] by (auto simp: lit_def)
qed

section \<open>Append\<close>

lemma storage_okD:
  "storage_ok cap s \<Longrightarrow> length (data s) = cap + 1"
  "storage_ok cap s \<Longrightarrow> len s \<le> cap"
  "storage_ok cap s \<Longrightarrow> data s ! len s = 0"
  by (simp_all add: storage_ok_def)

lemma cs_append_props:
  assumes "storage_ok cap s" "k \<le> length src"
  shows "snd (cs_append cap s (Some src) k) = min k (available cap s)"
    and "content (fst (cs_append cap s (Some src) k)) = content s @ take (min k (available cap s)) src"
    and "len (fst (cs_append cap s (Some src) k)) = len s + min k (available cap s)"
    and "storage_ok cap (fst (cs_append cap s (Some src) k))"
proof -
  let ?r = "min k (cap - len s)"
  note ok = storage_okD[OF assms(1)]
  have c: "copy_loop (data s) (len s) src 0 ?r =
      take (len s) (data s) @ take ?r src @ drop (len s + ?r) (data s)"
    using ok assms(2) by (intro copy_loop_eq) auto
  show "snd (cs_append cap s (Some src) k) = min k (available cap s)"
    using ok by (auto simp: cs_append_def available_def Let_def)
  show "content (fst (cs_append cap s (Some src) k)) = content s @ take (min k (available cap s)) src"
    using ok assms(2)
    by (auto simp: cs_append_def available_def Let_def content_def memcpy_string_def c)
  show "len (fst (cs_append cap s (Some src) k)) = len s + min k (available cap s)"
    using ok by (auto simp: cs_append_def available_def Let_def)
  show "storage_ok cap (fst (cs_append cap s (Some src) k))"
    using ok assms
    by (auto simp: cs_append_def storage_ok_def Let_def memcpy_string_def length_copy_loop)
qed

lemma cs_append_fill_props:
  assumes "storage_ok cap s"
  shows "snd (cs_append_fill cap s k ch) = min k (available cap s)"
    and "content (fst (cs_append_fill cap s k ch)) = content s @ replicate (min k (available cap s)) ch"
    and "len (fst (cs_append_fill cap s k ch)) = len s + min k (available cap s)"
    and "storage_ok cap (fst (cs_append_fill cap s k ch))"
proof -
  let ?r = "min k (cap - len s)"
  note ok = storage_okD[OF assms(1)]
  have c: "fill_loop (data s) (len s) ch 0 ?r =
      take (len s) (data s) @ replicate ?r ch @ drop (len s + ?r) (data s)"
    using ok by (intro fill_loop_eq) auto
  show "snd (cs_append_fill cap s k ch) = min k (available cap s)"
    using ok by (auto simp: cs_append_fill_def available_def Let_def)
  show "content (fst (cs_append_fill cap s k ch)) = content s @ replicate (min k (available cap s)) ch"
    using ok
    by (auto simp: cs_append_fill_def available_def Let_def content_def memset_string_def c)
  show "len (fst (cs_append_fill cap s k ch)) = len s + min k (available cap s)"
    using ok by (auto simp: cs_append_fill_def available_def Let_def)
  show "storage_ok cap (fst (cs_append_fill cap s k ch))"
    using ok assms
    by (auto simp: cs_append_fill_def storage_ok_def Let_def memset_string_def length_fill_loop)
qed

lemma fs_append_props:
  assumes "storage_ok cap s" "k \<le> length src"
  shows "content (fs_append cap s (Some src) k) = content s @ take (min k (available cap s)) src"
    and "len (fs_append cap s (Some src) k) = len s + min k (available cap s)"
    and "storage_ok cap (fs_append cap s (Some src) k)"
proof -
  let ?r = "min k (cap - len s)"
  note ok = storage_okD[OF assms(1)]
  have m: "detail_min (cap - len s) k = ?r" by (simp add: detail_min_eq min.commute)
  have c: "copy_loop (data s) (len s) src 0 ?r =
      take (len s) (data s) @ take ?r src @ drop (len s + ?r) (data s)"
    using ok assms(2) by (intro copy_loop_eq) auto
  show "content (fs_append cap s (Some src) k) = content s @ take (min k (available cap s)) src"
    using ok assms(2)
    by (auto simp: fs_append_def fs_full_def available_def Let_def content_def detail_copy_def m c)
  show "len (fs_append cap s (Some src) k) = len s + min k (available cap s)"
    using ok by (auto simp: fs_append_def fs_full_def available_def Let_def m)
  show "storage_ok cap (fs_append cap s (Some src) k)"
    using ok assms
    by (auto simp: fs_append_def fs_full_def available_def storage_ok_def Let_def detail_copy_def m length_copy_loop)
qed

text \<open>
  C2, as the code has it. Appending \<open>k\<close> units to a string with \<open>a = available()\<close>: when
  \<open>k > a\<close> exactly the first \<open>a\<close> source units are copied and the length becomes the
  capacity; when \<open>k \<le> a\<close> all \<open>k\<close> units are appended; the result is terminated again.
  \<^verbatim>\<open>string::append(str, count)\<close> and \<^verbatim>\<open>string::append(count, ch)\<close> return the count of
  units appended, \<open>a\<close> in the first case and \<open>k\<close> in the second.
  \<^verbatim>\<open>basic_fstring::append(str, len)\<close> and \<^verbatim>\<open>basic_fstring::append(ch)\<close> (\<open>k = 1\<close>) return the
  updated string and no count; the number of units appended is the growth of its length.
\<close>

theorem append_saturates:
  assumes "storage_ok cap s" and "k \<le> length src" and "a = available cap s"
  shows "(case cs_append cap s (Some src) k of (s', r) \<Rightarrow>
           cs_append_returned cap s (Some src) k = Count r \<and>
           storage_ok cap s' \<and>
           (a < k \<longrightarrow> r = a \<and> len s' = cap \<and> content s' = content s @ take a src) \<and>
           (k \<le> a \<longrightarrow> r = k \<and> len s' = len s + k \<and> content s' = content s @ take k src)) \<and>
         (case cs_append_fill cap s k ch of (s', r) \<Rightarrow>
           cs_append_fill_returned cap s k ch = Count r \<and>
           storage_ok cap s' \<and>
           (a < k \<longrightarrow> r = a \<and> len s' = cap \<and> content s' = content s @ replicate a ch) \<and>
           (k \<le> a \<longrightarrow> r = k \<and> len s' = len s + k \<and> content s' = content s @ replicate k ch)) \<and>
         (let s' = fs_append cap s (Some src) k in
           fs_append_returned cap s (Some src) k = This s' \<and>
           storage_ok cap s' \<and>
           (a < k \<longrightarrow> len s' = len s + a \<and> len s' = cap \<and> content s' = content s @ take a src) \<and>
           (k \<le> a \<longrightarrow> len s' = len s + k \<and> content s' = content s @ take k src)) \<and>
         (let s' = fs_append_char cap s ch in
           fs_append_char_returned cap s ch = This s' \<and>
           storage_ok cap s' \<and>
           (a < 1 \<longrightarrow> s' = s) \<and>
           (1 \<le> a \<longrightarrow> len s' = len s + 1 \<and> content s' = content s @ [ch]))"
proof -
  have one: "let s' = fs_append_char cap s ch in
           fs_append_char_returned cap s ch = This s' \<and>
           storage_ok cap s' \<and>
           (a < 1 \<longrightarrow> s' = s) \<and>
           (1 \<le> a \<longrightarrow> len s' = len s + 1 \<and> content s' = content s @ [ch])"
    using assms(1,3)
    by (auto simp: fs_append_char_returned_def fs_append_char_def fs_full_def storage_ok_def
        content_def available_def take_Suc_conv_app_nth Let_def)
  have le: "len s \<le> cap" using assms(1) by (simp add: storage_ok_def)
  have a: "a < k \<Longrightarrow> min k (available cap s) = a" "k \<le> a \<Longrightarrow> min k (available cap s) = k"
    using assms(3) by simp_all
  have t: "a < k \<Longrightarrow> len s + a = cap"
    using assms(3) le by (simp add: available_def)
  have rest: "(case cs_append cap s (Some src) k of (s', r) \<Rightarrow>
           cs_append_returned cap s (Some src) k = Count r \<and>
           storage_ok cap s' \<and>
           (a < k \<longrightarrow> r = a \<and> len s' = cap \<and> content s' = content s @ take a src) \<and>
           (k \<le> a \<longrightarrow> r = k \<and> len s' = len s + k \<and> content s' = content s @ take k src)) \<and>
         (case cs_append_fill cap s k ch of (s', r) \<Rightarrow>
           cs_append_fill_returned cap s k ch = Count r \<and>
           storage_ok cap s' \<and>
           (a < k \<longrightarrow> r = a \<and> len s' = cap \<and> content s' = content s @ replicate a ch) \<and>
           (k \<le> a \<longrightarrow> r = k \<and> len s' = len s + k \<and> content s' = content s @ replicate k ch)) \<and>
         (let s' = fs_append cap s (Some src) k in
           fs_append_returned cap s (Some src) k = This s' \<and>
           storage_ok cap s' \<and>
           (a < k \<longrightarrow> len s' = len s + a \<and> len s' = cap \<and> content s' = content s @ take a src) \<and>
           (k \<le> a \<longrightarrow> len s' = len s + k \<and> content s' = content s @ take k src))"
    using cs_append_props[OF assms(1,2)] cs_append_fill_props[OF assms(1), of k ch]
      fs_append_props[OF assms(1,2)] a t
    by (auto simp: split_beta Let_def cs_append_returned_def cs_append_fill_returned_def
        fs_append_returned_def)
  from rest one show ?thesis by (simp only: conj_assoc)
qed

theorem append_saturates_witness:
  "storage_ok 10 (cs_string 10 (lit ''hello'') 5) \<and>
   available 10 (cs_string 10 (lit ''hello'') 5) = 5 \<and>
   cs_append_returned 10 (cs_string 10 (lit ''hello'') 5) (Some (lit '' world'')) 6 = Count 5 \<and>
   content (fst (cs_append 10 (cs_string 10 (lit ''hello'') 5) (Some (lit '' world'')) 6)) = lit ''hello worl'' \<and>
   cs_append_fill_returned 10 (cs_string 10 (lit ''hello'') 5) 6 33 = Count 5 \<and>
   fs_append_returned 10 (fs_string 10 (Some (lit ''hello'')) 5) (Some (lit '' world'')) 6 =
     This (fs_append 10 (fs_string 10 (Some (lit ''hello'')) 5) (Some (lit '' world'')) 6) \<and>
   len (fs_append 10 (fs_string 10 (Some (lit ''hello'')) 5) (Some (lit '' world'')) 6) = 10 \<and>
   content (fs_append 10 (fs_string 10 (Some (lit ''hello'')) 5) (Some (lit '' world'')) 6) = lit ''hello worl''"
proof -
  let ?s = "cs_string 10 (lit ''hello'') 5"
  have h1: "storage_ok 10 ?s" by code_simp
  have h2: "6 \<le> length (lit '' world'')" by (simp add: lit_def)
  have h3: "5 = available 10 ?s" by code_simp
  have h4: "content ?s = lit ''hello''" by code_simp
  have h5: "fs_string 10 (Some (lit ''hello'')) 5 = ?s" by code_simp
  show ?thesis
    unfolding h5
    using append_saturates[OF h1 h2 h3, of 33] h1 h3 h4
    by (simp add: split_beta Let_def lit_def)
qed

text \<open>
  The claim as the specification words it, that every append returns the count, fails for
  \<^verbatim>\<open>basic_fstring\<close>: appending the four units of \<^verbatim>\<open>"defg"\<close> to \<^verbatim>\<open>fstring<5>("abc")\<close>, with
  two units available, \<^verbatim>\<open>string::append\<close> returns the count 2, and
  \<^verbatim>\<open>basic_fstring::append\<close> returns the string \<^verbatim>\<open>"abcde"\<close>, not a count.
\<close>

theorem fs_append_returns_string_counterexample:
  "available 5 (fs_string 5 (Some (lit ''abc'')) 3 :: int fstring) = 2 \<and>
   cs_append_returned 5 (cs_string 5 (lit ''abc'') 3 :: int fstring) (Some (lit ''defg'')) 4 = Count 2 \<and>
   fs_append_returned 5 (fs_string 5 (Some (lit ''abc'')) 3 :: int fstring) (Some (lit ''defg'')) 4 =
     This \<lparr>data = lit ''abcde'' @ [0], len = 5\<rparr> \<and>
   fs_append_returned 5 (fs_string 5 (Some (lit ''abc'')) 3 :: int fstring) (Some (lit ''defg'')) 4 \<noteq>
     Count (min 4 (available 5 (fs_string 5 (Some (lit ''abc'')) 3 :: int fstring)))"
  by (simp add: fs_append_returned_def cs_append_returned_def) code_simp

section \<open>Checked access\<close>

text \<open>
  C4, as the code has it. With the bounds check compiled in (the default of
  fstring_config.hpp), and unconditionally for \<^verbatim>\<open>string::at\<close>, \<^verbatim>\<open>at(i)\<close> fails with
  IndexError exactly when \<open>i \<ge> length()\<close>, whatever the capacity, and otherwise returns
  the stored unit; \<^verbatim>\<open>at(length())\<close> fails and \<^verbatim>\<open>at(length() - 1)\<close> succeeds on a
  non-empty string.
\<close>

theorem at_bounds_checked:
  "(cs_at s i = Inl IndexError \<longleftrightarrow> len s \<le> i) \<and>
   (i < len s \<longrightarrow> cs_at s i = Inr (data s ! i)) \<and>
   (fs_at True s i = Inl IndexError \<longleftrightarrow> len s \<le> i) \<and>
   (i < len s \<longrightarrow> fs_at True s i = Inr (data s ! i)) \<and>
   cs_at s (len s) = Inl IndexError \<and>
   fs_at True s (len s) = Inl IndexError \<and>
   (0 < len s \<longrightarrow> cs_at s (len s - 1) = Inr (data s ! (len s - 1)) \<and>
                 fs_at True s (len s - 1) = Inr (data s ! (len s - 1)))"
  by (auto simp: cs_at_def fs_at_def)

theorem at_bounds_checked_witness:
  "cs_at (cs_string 10 (lit ''hello'') 5) 4 = Inr 111 \<and>
   fs_at True (fs_string 10 (Some (lit ''hello'')) 5) 4 = Inr 111 \<and>
   cs_at (cs_string 10 (lit ''hello'') 5) 5 = Inl IndexError \<and>
   fs_at True (fs_string 10 (Some (lit ''hello'')) 5) 5 = Inl IndexError"
proof -
  have c: "len (cs_string 10 (lit ''hello'') 5) = 5" "data (cs_string 10 (lit ''hello'') 5) ! 4 = 111"
    by code_simp+
  have f: "len (fs_string 10 (Some (lit ''hello'')) 5) = 5"
    "data (fs_string 10 (Some (lit ''hello'')) 5) ! 4 = 111"
    by code_simp+
  show ?thesis
    using at_bounds_checked[of "cs_string 10 (lit ''hello'') 5" 4]
      at_bounds_checked[of "fs_string 10 (Some (lit ''hello'')) 5" 4] c f
    by simp
qed

text \<open>
  C4 as stated fails where the check is compiled out (\<^verbatim>\<open>FSTRING_DISABLE_BOUNDS_CHECK\<close>):
  \<^verbatim>\<open>at(length())\<close> of \<^verbatim>\<open>fstring<10>("hello")\<close> then returns the terminator.
\<close>

theorem at_unchecked_counterexample:
  "len (fs_string 10 (Some (lit ''hello'')) 5) = 5 \<and>
   fs_at False (fs_string 10 (Some (lit ''hello'')) 5) 5 = Inr 0"
  by code_simp

section \<open>Split\<close>

lemma content_fs_append_char:
  "length (data s) = cap + 1 \<Longrightarrow> len s < cap \<Longrightarrow>
   content (fs_append_char cap s ch) = content s @ [ch]"
  by (simp add: fs_append_char_def fs_full_def content_def take_Suc_conv_app_nth)

lemma content_fs_clear: "content (fs_clear s) = []"
  by (simp add: fs_clear_def content_def)

lemma fs_empty_content: "fs_empty s \<longleftrightarrow> len s = 0"
  by (simp add: fs_empty_def)

lemma content_Nil_iff: "len s \<le> length (data s) \<Longrightarrow> content s = [] \<longleftrightarrow> len s = 0"
  by (auto simp: content_def)

lemma segments_emit:
  "count r < length (parts r) \<Longrightarrow>
   segments \<lparr>parts = (parts r)[count r := cur], count = Suc (count r)\<rparr> = segments r @ [content cur]"
  by (simp add: segments_def take_Suc_conv_app_nth)

lemma segments_eta: "segments \<lparr>parts = parts r, count = count r\<rparr> = segments r"
  by (simp add: segments_def)

lemma length_segments: "count r \<le> length (parts r) \<Longrightarrow> length (segments r) = count r"
  by (simp add: segments_def)

lemma pieces_not_Nil: "pieces d xs \<noteq> []"
  by (induction xs) auto

lemma hd_tl_pieces: "hd (pieces d xs) # tl (pieces d xs) = pieces d xs"
  by (simp add: pieces_not_Nil)

lemma drop_content_step:
  "i < len s \<Longrightarrow> len s \<le> length (data s) \<Longrightarrow>
   drop i (content s) = data s ! i # drop (Suc i) (content s)"
  by (simp add: content_def Cons_nth_drop_Suc[symmetric])

lemma split_loop_segments:
  "\<lbrakk>len str \<le> cap; len str \<le> length (data str); length (data current) = cap + 1;
    len current \<le> i; i \<le> len str; length (parts result) = MaxParts; count result \<le> MaxParts\<rbrakk>
   \<Longrightarrow> segments (split_finish MaxParts (split_loop cap MaxParts str d i result current)) =
         take MaxParts (segments result @ filter (\<lambda>p. p \<noteq> [])
            ((content current @ hd (pieces d (drop i (content str)))) # tl (pieces d (drop i (content str)))))
       \<and> count (split_finish MaxParts (split_loop cap MaxParts str d i result current)) \<le> MaxParts"
proof (induction cap MaxParts str d i result current rule: split_loop.induct)
  case (1 cap MaxParts str d i result current)
  note prems = "1.prems"
  have ls: "length (segments result) = count result"
    using prems by (simp add: length_segments)
  have ce: "content current = [] \<longleftrightarrow> fs_empty current"
    using prems by (simp add: content_Nil_iff fs_empty_def)
  show ?case
  proof (cases "i < len str \<and> count result < MaxParts")
    case False
    have r: "split_loop cap MaxParts str d i result current = (result, current)"
      by (subst split_loop.simps) (simp only: False if_False)
    show ?thesis
    proof (cases "count result < MaxParts")
      case True
      with False prems have "i = len str" by simp
      then have "drop i (content str) = []" by (simp add: content_def)
      then show ?thesis
        using True prems ls ce
        by (auto simp: r split_finish_def segments_emit)
    next
      case F: False
      then show ?thesis
        using prems ls by (simp add: r split_finish_def)
    qed
  next
    case True
    then have i: "i < len str" and c: "count result < MaxParts" by simp_all
    have dr: "drop i (content str) = data str ! i # drop (Suc i) (content str)"
      using i prems by (simp add: drop_content_step)
    obtain p ps where pp: "pieces d (drop (Suc i) (content str)) = p # ps"
      using pieces_not_Nil[of d "drop (Suc i) (content str)"]
      by (cases "pieces d (drop (Suc i) (content str))") auto
    show ?thesis
    proof (cases "data str ! i = d")
      case dl: True
      show ?thesis
      proof (cases "fs_empty current")
        case e: True
        have r: "split_loop cap MaxParts str d i result current =
                 split_loop cap MaxParts str d (i + 1) result current"
          using True dl e by (subst split_loop.simps) simp
        have "len current \<le> i + 1" "i + 1 \<le> len str" using prems i by simp_all
        from "1.IH"(2)[OF True dl _ prems(1,2,3) this prems(6,7)] e
        show ?thesis using dl e ce
          by (simp add: r dr pp)
      next
        case ne: False
        let ?result' = "\<lparr>parts = (parts result)[count result := current], count = count result + 1\<rparr>"
        have r: "split_loop cap MaxParts str d i result current =
                 split_loop cap MaxParts str d (i + 1) ?result' (fs_clear current)"
          using True dl ne by (subst split_loop.simps) simp
        have p: "length (data (fs_clear current)) = cap + 1" "len (fs_clear current) \<le> i + 1"
          "i + 1 \<le> len str" "length (parts ?result') = MaxParts" "count ?result' \<le> MaxParts"
          using prems i c by (simp_all add: fs_clear_def)
        have sg: "segments \<lparr>parts = (parts result)[count result := current],
            count = Suc (count result)\<rparr> = segments result @ [content current]"
          using c prems by (simp add: segments_emit)
        from "1.IH"(1)[OF True dl _ prems(1,2) p] ne
        show ?thesis using dl ne ce
          by (simp add: r dr pp sg content_fs_clear)
      qed
    next
      case nd: False
      have r: "split_loop cap MaxParts str d i result current =
               split_loop cap MaxParts str d (i + 1) result (fs_append_char cap current (data str ! i))"
        using True nd by (subst split_loop.simps) simp
      have lt: "len current < cap" using prems i by simp
      have p: "length (data (fs_append_char cap current (data str ! i))) = cap + 1"
        "len (fs_append_char cap current (data str ! i)) \<le> i + 1" "i + 1 \<le> len str"
        using prems i lt by (simp_all add: fs_append_char_def fs_full_def)
      from "1.IH"(3)[OF True nd prems(1,2) p prems(6,7)]
      show ?thesis using nd prems lt
        by (simp add: r dr pp content_fs_append_char)
    qed
  qed
qed

lemma pieces_no_delimiter: "p \<in> set (pieces d xs) \<Longrightarrow> d \<notin> set p"
proof (induction xs arbitrary: p)
  case Nil
  then show ?case by simp
next
  case (Cons x xs)
  obtain q qs where q: "pieces d xs = q # qs"
    using pieces_not_Nil[of d xs] by (cases "pieces d xs") auto
  show ?case
    using Cons q by (auto split: if_splits)
qed

lemma concat_pieces: "concat (pieces d xs) = filter (\<lambda>x. x \<noteq> d) xs"
proof (induction xs)
  case Nil
  then show ?case by simp
next
  case (Cons x xs)
  obtain q qs where q: "pieces d xs = q # qs"
    using pieces_not_Nil[of d xs] by (cases "pieces d xs") auto
  show ?case using Cons q by simp
qed

lemma length_pieces: "length (pieces d xs) = Suc (count_list xs d)"
  by (induction xs) (auto simp: pieces_not_Nil)

text \<open>
  C6. \<open>split\<close> produces, in scan order, the non-empty delimiter-free runs of the input
  (empty runs from adjacent, leading or trailing delimiters are dropped), the trailing run
  included when it is non-empty, and at most \<open>MaxParts\<close> of them.
\<close>

theorem split_drops_empty_segments:
  assumes "storage_ok cap str"
  shows "segments (split cap MaxParts str d) =
           take MaxParts (filter (\<lambda>p. p \<noteq> []) (pieces d (content str))) \<and>
         (\<forall>p \<in> set (segments (split cap MaxParts str d)). p \<noteq> [] \<and> d \<notin> set p) \<and>
         count (split cap MaxParts str d) \<le> MaxParts"
proof -
  let ?r0 = "\<lparr>parts = replicate MaxParts (empty_string cap :: 'a fstring), count = 0\<rparr>"
  let ?e = "empty_string cap :: 'a fstring"
  have e0: "content ?e = []"
    by (simp add: content_def empty_string_def)
  have s0: "segments ?r0 = []"
    by (simp add: segments_def)
  have pre: "len str \<le> cap" "len str \<le> length (data str)" "length (data ?e) = cap + 1"
    "len ?e \<le> 0" "0 \<le> len str" "length (parts ?r0) = MaxParts" "count ?r0 \<le> MaxParts"
    using assms by (simp_all add: storage_ok_def empty_string_def)
  note L = split_loop_segments[OF pre, of d]
  have hl: "hd (pieces d (content str)) # tl (pieces d (content str)) = pieces d (content str)"
    by (rule hd_tl_pieces)
  have eq: "segments (split cap MaxParts str d) =
      take MaxParts (filter (\<lambda>p. p \<noteq> []) (pieces d (content str)))"
    using L[THEN conjunct1] unfolding split_def e0 s0 drop_0 append_Nil hl .
  have le: "count (split cap MaxParts str d) \<le> MaxParts"
    using L[THEN conjunct2] unfolding split_def .
  have "p \<noteq> [] \<and> d \<notin> set p" if "p \<in> set (segments (split cap MaxParts str d))" for p
  proof -
    from that have "p \<in> set (filter (\<lambda>p. p \<noteq> []) (pieces d (content str)))"
      unfolding eq by (rule in_set_takeD)
    then show ?thesis
      using pieces_no_delimiter[of p d "content str"] by simp
  qed
  with eq le show ?thesis by blast
qed

theorem split_drops_empty_segments_witness:
  "storage_ok 30 (fs_string 30 (Some (lit ''a,,b'')) 4) \<and>
   segments (split 30 16 (fs_string 30 (Some (lit ''a,,b'')) 4) (of_char CHR '','')) =
     [lit ''a'', lit ''b'']"
proof -
  have h: "storage_ok 30 (fs_string 30 (Some (lit ''a,,b'')) 4)" by code_simp
  have c: "content (fs_string 30 (Some (lit ''a,,b'')) 4) = lit ''a,,b''" by code_simp
  have p: "pieces (of_char CHR '','') (lit ''a,,b'') = [lit ''a'', [], lit ''b'']"
    by (simp add: lit_def)
  have t: "take 16 (filter (\<lambda>p. p \<noteq> []) [lit ''a'', [], lit ''b'']) = [lit ''a'', lit ''b'']"
    by (simp add: lit_def)
  show ?thesis
    using split_drops_empty_segments[OF h, of 16 "of_char CHR '',''", THEN conjunct1] h
    unfolding c p t by simp
qed

section \<open>Numeric conversions\<close>

lemma content_nth: "i < len s \<Longrightarrow> len s \<le> length (data s) \<Longrightarrow> content s ! i = data s ! i"
  by (simp add: content_def)

lemma parse_int_loop_eq:
  "len str \<le> length (data str) \<Longrightarrow> i \<le> len str \<Longrightarrow>
   parse_int_loop str base i r =
     foldl (\<lambda>v ch. v * word_of_int base + word_of_int (digit_of_unit ch)) r
       (takeWhile (valid_digit base) (drop i (content str)))"
proof (induction str base i r rule: parse_int_loop.induct)
  case (1 str base i result)
  show ?case
  proof (cases "i < len str")
    case False
    then have "drop i (content str) = []" by (simp add: content_def)
    then show ?thesis using False by (subst parse_int_loop.simps) simp
  next
    case True
    have dr: "drop i (content str) = data str ! i # drop (Suc i) (content str)"
      using True "1.prems" by (simp add: drop_content_step)
    show ?thesis
    proof (cases "valid_digit base (data str ! i)")
      case False
      then show ?thesis using True
        by (subst parse_int_loop.simps) (simp add: dr valid_digit_def Let_def)
    next
      case v: True
      then have nb: "\<not> (digit_of_unit (data str ! i) < 0 \<or> base \<le> digit_of_unit (data str ! i))"
        by (simp add: valid_digit_def)
      have "parse_int_loop str base i result =
            parse_int_loop str base (i + 1)
              (result * word_of_int base + word_of_int (digit_of_unit (data str ! i)))"
        using True nb by (subst parse_int_loop.simps) (simp add: Let_def)
      also have "\<dots> = foldl (\<lambda>v ch. v * word_of_int base + word_of_int (digit_of_unit ch))
             (result * word_of_int base + word_of_int (digit_of_unit (data str ! i)))
             (takeWhile (valid_digit base) (drop (i + 1) (content str)))"
        using "1.IH"[OF True refl refl nb] "1.prems" True by simp
      finally show ?thesis using v by (simp add: dr)
    qed
  qed
qed

lemma foldl_word_of_int:
  "foldl (\<lambda>v ch. v * word_of_int base + word_of_int (digit_of_unit ch)) (word_of_int v0) ds =
   (word_of_int (foldl (\<lambda>v ch. v * base + digit_of_unit ch) v0 ds) :: 'w::len word)"
  by (induction ds arbitrary: v0) (simp_all flip: of_int_mult of_int_add)

lemma parse_int_loop_value:
  "len str \<le> length (data str) \<Longrightarrow> i \<le> len str \<Longrightarrow>
   parse_int_loop str base i 0 =
     word_of_int (digits_value base (takeWhile (valid_digit base) (drop i (content str))))"
  using foldl_word_of_int[of base 0] by (simp add: parse_int_loop_eq digits_value_def)

lemma parse_int_eq:
  assumes "len str \<le> length (data str)"
  shows "parse_int is_signed str base =
     (case content str of
        [] \<Rightarrow> 0
      | c # cs \<Rightarrow>
          if is_signed \<and> c = of_char CHR ''-''
          then - word_of_int (digits_value base (takeWhile (valid_digit base) cs))
          else if is_signed \<and> c = of_char CHR ''+''
          then word_of_int (digits_value base (takeWhile (valid_digit base) cs))
          else word_of_int (digits_value base (takeWhile (valid_digit base) (c # cs))))"
proof (cases "len str = 0")
  case True
  then show ?thesis by (simp add: parse_int_def fs_empty_def content_def)
next
  case False
  then have l: "0 < len str" by simp
  have c: "content str = data str ! 0 # drop (Suc 0) (content str)"
    using drop_content_step[OF l assms] by simp
  then obtain cs where cc: "content str = data str ! 0 # cs"
    by blast
  show ?thesis
    using False assms l
    by (auto simp: parse_int_def fs_empty_def Let_def parse_int_loop_value cc)
qed


lemma to_fstring_digits_append:
  "to_fstring_digits b u buf = buf @ to_fstring_digits b u []"
proof (induction u arbitrary: buf rule: less_induct)
  case (less u)
  show ?case
  proof (cases "u > 0 \<and> 2 \<le> b")
    case True
    let ?c = "if u mod b < 10 then of_char CHR ''0'' + int (u mod b)
              else of_char CHR ''a'' + (int (u mod b) - 10)"
    have lt: "u div b < u" using True by simp
    have "to_fstring_digits b u buf = to_fstring_digits b (u div b) (buf @ [?c])"
      using True by (subst to_fstring_digits.simps) (simp add: Let_def)
    also have "\<dots> = (buf @ [?c]) @ to_fstring_digits b (u div b) []"
      using less[OF lt] .
    also have "\<dots> = buf @ to_fstring_digits b (u div b) ([] @ [?c])"
      using less[OF lt, of "[] @ [?c]"] by simp
    also have "to_fstring_digits b (u div b) ([] @ [?c]) = to_fstring_digits b u []"
      using True by (subst (2) to_fstring_digits.simps) (simp add: Let_def)
    finally show ?thesis .
  next
    case False
    have "to_fstring_digits b u buf = buf" "to_fstring_digits b u [] = []"
      by (subst to_fstring_digits.simps, simp only: False if_False)+
    then show ?thesis by simp
  qed
qed

lemma to_fstring_digits_step:
  assumes "0 < u" "2 \<le> b"
  shows "to_fstring_digits b u [] =
     (if u mod b < 10 then of_char CHR ''0'' + int (u mod b)
      else of_char CHR ''a'' + (int (u mod b) - 10)) # to_fstring_digits b (u div b) []"
proof -
  let ?c = "if u mod b < 10 then of_char CHR ''0'' + int (u mod b)
            else of_char CHR ''a'' + (int (u mod b) - 10)"
  have "to_fstring_digits b u [] = to_fstring_digits b (u div b) [?c]"
    using assms by (subst to_fstring_digits.simps) (simp add: Let_def)
  also have "\<dots> = [?c] @ to_fstring_digits b (u div b) []"
    by (rule to_fstring_digits_append)
  finally show ?thesis by simp
qed

lemma to_fstring_digits_zero: "to_fstring_digits b 0 [] = []"
  by (subst to_fstring_digits.simps) simp

lemma digit_of_unit_digit_char:
  "k < 36 \<Longrightarrow>
   digit_of_unit (if k < 10 then of_char CHR ''0'' + int k else of_char CHR ''a'' + (int k - 10)) = int k"
  by (simp add: digit_of_unit_def)

lemma digits_value_snoc:
  "digits_value base (ds @ [ch]) = digits_value base ds * base + digit_of_unit ch"
  by (simp add: digits_value_def)

lemma to_fstring_digits_value:
  "2 \<le> b \<Longrightarrow> b \<le> 36 \<Longrightarrow> digits_value (int b) (rev (to_fstring_digits b u [])) = int u"
proof (induction u rule: less_induct)
  case (less u)
  show ?case
  proof (cases "u = 0")
    case True
    then show ?thesis by (simp add: to_fstring_digits_zero digits_value_def)
  next
    case False
    then have u: "0 < u" by simp
    have lt: "u div b < u" using u less.prems by simp
    have "u mod b < b" using less.prems by simp
    then have k: "u mod b < 36" using less.prems(2) by linarith
    have "digits_value (int b) (rev (to_fstring_digits b u [])) =
          int (u div b) * int b + int (u mod b)"
      using less.IH[OF lt less.prems]
      by (simp add: to_fstring_digits_step[OF u less.prems(1)] digits_value_snoc
            digit_of_unit_digit_char[OF k] del: of_char_Char)
    also have "\<dots> = int u"
      by (metis div_mult_mod_eq of_nat_add of_nat_mult)
    finally show ?thesis .
  qed
qed

lemma to_fstring_digits_valid:
  "2 \<le> b \<Longrightarrow> b \<le> 36 \<Longrightarrow> ch \<in> set (to_fstring_digits b u []) \<Longrightarrow> valid_digit (int b) ch"
proof (induction u rule: less_induct)
  case (less u)
  show ?case
  proof (cases "u = 0")
    case True
    then show ?thesis using less.prems by (simp add: to_fstring_digits_zero)
  next
    case False
    then have u: "0 < u" by simp
    have lt: "u div b < u" using u less.prems by simp
    have kb: "u mod b < b" using less.prems by simp
    then have k: "u mod b < 36" using less.prems(2) by linarith
    from less.prems(3) consider
      "ch = (if u mod b < 10 then of_char CHR ''0'' + int (u mod b)
             else of_char CHR ''a'' + (int (u mod b) - 10))"
      | "ch \<in> set (to_fstring_digits b (u div b) [])"
      by (auto simp: to_fstring_digits_step[OF u less.prems(1)] simp del: of_char_Char)
    then show ?thesis
    proof cases
      case 1
      then have "digit_of_unit ch = int (u mod b)"
        using digit_of_unit_digit_char[OF k] by simp
      then show ?thesis using kb by (simp add: valid_digit_def)
    next
      case 2
      then show ?thesis using less.IH[OF lt less.prems(1,2)] by simp
    qed
  qed
qed

lemma length_to_fstring_digits:
  "2 \<le> b \<Longrightarrow> u < 2 ^ n \<Longrightarrow> length (to_fstring_digits b u []) \<le> n"
proof (induction u arbitrary: n rule: less_induct)
  case (less u)
  show ?case
  proof (cases "u = 0")
    case True
    then show ?thesis by (simp add: to_fstring_digits_zero)
  next
    case False
    then have u: "0 < u" by simp
    have lt: "u div b < u" using u less.prems by simp
    obtain m where n: "n = Suc m"
      using less.prems(2) u by (cases n) auto
    have "u div b \<le> u div 2" using less.prems(1) by (simp add: div_le_mono2)
    also have "u div 2 < 2 ^ m" using less.prems(2) n by simp
    finally have "length (to_fstring_digits b (u div b) []) \<le> m"
      using less.IH[OF lt less.prems(1)] by simp
    then show ?thesis
      by (simp add: to_fstring_digits_step[OF u less.prems(1)] n)
  qed
qed

lemma to_fstring_digits_not_Nil:
  "2 \<le> b \<Longrightarrow> 0 < u \<Longrightarrow> to_fstring_digits b u [] \<noteq> []"
  by (simp add: to_fstring_digits_step)

lemma valid_digit_not_sign:
  "valid_digit base ch \<Longrightarrow> ch \<noteq> of_char CHR ''-'' \<and> ch \<noteq> of_char CHR ''+''"
  by (auto simp: valid_digit_def digit_of_unit_def)

lemma fs_append_char_props:
  assumes "length (data s) = cap + 1" "len s < cap"
  shows "content (fs_append_char cap s ch) = content s @ [ch]"
    and "len (fs_append_char cap s ch) = len s + 1"
    and "length (data (fs_append_char cap s ch)) = cap + 1"
  using assms by (simp_all add: content_fs_append_char) (simp_all add: fs_append_char_def fs_full_def)

lemma append_reversed_props:
  "length (data r) = cap + 1 \<Longrightarrow> len r + pos \<le> cap \<Longrightarrow> pos \<le> length buf \<Longrightarrow>
   content (append_reversed cap r buf pos) = content r @ rev (take pos buf) \<and>
   len (append_reversed cap r buf pos) = len r + pos \<and>
   length (data (append_reversed cap r buf pos)) = cap + 1"
proof (induction pos arbitrary: r)
  case 0
  then show ?case by simp
next
  case (Suc pos)
  have lt: "len r < cap" using Suc.prems by simp
  note a = fs_append_char_props[OF Suc.prems(1) lt, of "buf ! pos"]
  have "len (fs_append_char cap r (buf ! pos)) + pos \<le> cap" "pos \<le> length buf"
    using Suc.prems a by simp_all
  from Suc.IH[OF a(3) this] show ?case
    using Suc.prems a by (simp add: take_Suc_conv_app_nth)
qed


lemma empty_string_props:
  "len (empty_string cap) = 0" "length (data (empty_string cap)) = cap + 1"
  "content (empty_string cap) = []"
  by (simp_all add: empty_string_def content_def)

lemma to_fstring_body_content:
  fixes x :: "'w::len word"
  assumes "2 \<le> base" "base \<le> 36" and ok: "to_fstring_body is_signed x base = Inr s"
  shows "len s \<le> length (data s) \<and>
         content s =
           (if x = 0 then [of_char CHR ''0'']
            else (if is_signed \<and> sint x < 0 then [of_char CHR ''-''] else []) @
                 rev (to_fstring_digits (nat base)
                        (unat (if is_signed \<and> sint x < 0 then - x else x)) []))"
proof (cases "x = 0")
  case True
  let ?cap = "LENGTH('w) + 2"
  note a = fs_append_char_props[of "empty_string ?cap :: int fstring" ?cap "of_char CHR ''0''"]
  have "s = fs_append_char ?cap (empty_string ?cap) (of_char CHR ''0'')"
    using True assms by (simp add: to_fstring_body_def Let_def)
  then show ?thesis
    using True a by (simp add: empty_string_props)
next
  case False
  let ?cap = "LENGTH('w) + 2"
  let ?neg = "is_signed \<and> sint x < 0"
  let ?u = "if ?neg then - x else x"
  let ?buf = "to_fstring_digits (nat base) (unat ?u) []"
  let ?r = "if ?neg then fs_append_char ?cap (empty_string ?cap) (of_char CHR ''-'')
            else (empty_string ?cap :: int fstring)"
  note a = fs_append_char_props[of "empty_string ?cap :: int fstring" ?cap "of_char CHR ''-''"]
  have r: "length (data ?r) = ?cap + 1" "len ?r \<le> 1"
    "content ?r = (if ?neg then [of_char CHR ''-''] else [])"
    using a by (simp_all add: empty_string_props)
  have "unat ?u < 2 ^ LENGTH('w)" by (rule unsigned_less)
  then have lb: "length ?buf \<le> LENGTH('w)"
    using assms by (intro length_to_fstring_digits) simp_all
  have "content (append_reversed ?cap ?r ?buf (length ?buf)) = content ?r @ rev (take (length ?buf) ?buf) \<and>
        len (append_reversed ?cap ?r ?buf (length ?buf)) = len ?r + length ?buf \<and>
        length (data (append_reversed ?cap ?r ?buf (length ?buf))) = ?cap + 1"
    using r lb by (intro append_reversed_props) simp_all
  moreover have "s = append_reversed ?cap ?r ?buf (length ?buf)"
    using False assms
    by (auto simp: to_fstring_body_def Let_def negate_value_def split: if_splits)
  ultimately show ?thesis
    using False r lb by (simp del: of_char_Char)
qed

text \<open>
  The statements of the body yield a string for every base from 2 to 36, unless the value
  is the minimum of a signed type as wide as \<^verbatim>\<open>int\<close> or wider.
\<close>

lemma to_fstring_body_defined:
  fixes x :: "'w::len word"
  assumes "\<not> (is_signed \<and> int_bits \<le> LENGTH('w) \<and> sint x = - (2 ^ (LENGTH('w) - 1)))"
  shows "\<exists>s. to_fstring_body is_signed x base = Inr s"
  using assms by (auto simp: to_fstring_body_def Let_def negate_value_def)

text \<open>
  A string that holds an optional \<^verbatim>\<open>'-'\<close> and the digits of the magnitude, most
  significant first, is read back by \<^verbatim>\<open>parse_int\<close> as the value.
\<close>

lemma parse_int_of_written:
  fixes x :: "'w::len word"
  assumes "2 \<le> base" "base \<le> 36"
    and c: "len s \<le> length (data s) \<and>
         content s =
           (if x = 0 then [of_char CHR ''0'']
            else (if is_signed \<and> sint x < 0 then [of_char CHR ''-''] else []) @
                 rev (to_fstring_digits (nat base)
                        (unat (if is_signed \<and> sint x < 0 then - x else x)) []))"
  shows "parse_int is_signed s base = x"
proof -
  let ?neg = "is_signed \<and> sint x < 0"
  let ?u = "if ?neg then - x else x"
  let ?D = "to_fstring_digits (nat base) (unat ?u) []"
  let ?p = "parse_int is_signed s base :: 'w word"
  have b: "2 \<le> nat base" "nat base \<le> 36" "int (nat base) = base" using assms by simp_all
  note pe = parse_int_eq[OF c[THEN conjunct1], of is_signed base]
  have valid: "\<And>ch. ch \<in> set ?D \<Longrightarrow> valid_digit base ch"
    using to_fstring_digits_valid[OF b(1,2)] b(3) by simp
  then have tw: "takeWhile (valid_digit base) (rev ?D) = rev ?D"
    by simp
  have val: "digits_value base (rev ?D) = int (unat ?u)"
    using to_fstring_digits_value[OF b(1,2), of "unat ?u"] b(3) by simp
  show ?thesis
  proof (cases "x = 0")
    case True
    have "valid_digit base (of_char CHR ''0'')"
      using assms by (simp add: valid_digit_def digit_of_unit_def)
    then show ?thesis
      using True c pe by (simp add: digits_value_def digit_of_unit_def)
  next
    case False
    show ?thesis
    proof (cases ?neg)
      case True
      then have "content s = of_char CHR ''-'' # rev ?D"
        using c False by (simp del: of_char_Char)
      then have "?p =
          - word_of_int (digits_value base (takeWhile (valid_digit base) (rev ?D)))"
        using pe True by (simp del: of_char_Char)
      then have "?p = - word_of_int (digits_value base (rev ?D))"
        unfolding tw .
      then show ?thesis using val True by simp
    next
      case nn: False
      have cs: "content s = rev ?D"
        using c False nn by (auto simp del: of_char_Char)
      have "unat ?u \<noteq> 0" using False nn by (auto simp: unat_eq_0)
      then have "?D \<noteq> []" using b by (intro to_fstring_digits_not_Nil) simp_all
      then obtain d ds where dd: "rev ?D = d # ds" by (cases "rev ?D") auto
      have "d \<in> set ?D" using dd by (metis list.set_intros(1) set_rev)
      then have ns: "d \<noteq> of_char CHR ''-''" "d \<noteq> of_char CHR ''+''"
        using valid valid_digit_not_sign by blast+
      have "?p = word_of_int (digits_value base (takeWhile (valid_digit base) (rev ?D)))"
        using pe cs dd ns by (simp del: of_char_Char takeWhile.simps)
      then have "?p = word_of_int (digits_value base (rev ?D))"
        unfolding tw .
      then show ?thesis using val nn by auto
    qed
  qed
qed

text \<open>
  Where the statements of the body yield a string, \<^verbatim>\<open>parse_int\<close> reads the value back
  from it: the digit loop and the parser agree, for every base from 2 to 36.
\<close>

lemma to_fstring_body_roundtrip:
  fixes x :: "'w::len word"
  assumes "2 \<le> base" "base \<le> 36" and ok: "to_fstring_body is_signed x base = Inr s"
  shows "parse_int is_signed s base = x"
  using assms(1,2) to_fstring_body_content[OF assms] by (rule parse_int_of_written)

subsection \<open>The decimal overload\<close>

lemma to_fstring_decimal_digits_eq:
  "to_fstring_decimal_digits u buf = to_fstring_digits 10 u buf"
proof (induction u buf rule: to_fstring_decimal_digits.induct)
  case (1 u buf)
  show ?case
  proof (cases "0 < u")
    case True
    have "to_fstring_decimal_digits u buf =
          to_fstring_decimal_digits (u div 10) (buf @ [of_char CHR ''0'' + int (u mod 10)])"
      using True by (subst to_fstring_decimal_digits.simps) simp
    also have "\<dots> = to_fstring_digits 10 (u div 10) (buf @ [of_char CHR ''0'' + int (u mod 10)])"
      using "1.IH"[OF True] .
    also have "\<dots> = to_fstring_digits 10 u buf"
      using True by (subst (2) to_fstring_digits.simps) (simp add: Let_def)
    finally show ?thesis .
  next
    case False
    then show ?thesis
      by (subst to_fstring_decimal_digits.simps, subst to_fstring_digits.simps) simp
  qed
qed

lemma length_to_fstring_digits_floorlog:
  "2 \<le> b \<Longrightarrow> length (to_fstring_digits b u []) = floorlog b u"
proof (induction u rule: less_induct)
  case (less u)
  show ?case
  proof (cases "u = 0")
    case True
    then show ?thesis by (simp add: to_fstring_digits_zero floorlog_def)
  next
    case False
    then have u: "0 < u" by simp
    have "u div b < u" using u less.prems by simp
    from less.IH[OF this less.prems] show ?thesis
      using u less.prems
      by (simp add: to_fstring_digits_step[OF u less.prems] compute_floorlog[of b u])
  qed
qed

lemma uint_of_sint:
  fixes x :: "'w::len word"
  shows "sint x < 0 \<Longrightarrow> uint (- x) = - sint x" and "\<not> sint x < 0 \<Longrightarrow> uint x = sint x"
proof -
  have w: "(2::int) ^ (LENGTH('w) - 1) < 2 ^ LENGTH('w)"
    by (rule power_strict_increasing) simp_all
  have ge: "- (2 ^ (LENGTH('w) - 1)) \<le> sint x" by (rule sint_ge)
  have lt: "sint x < 2 ^ (LENGTH('w) - 1)" by (rule sint_lt)
  show "uint (- x) = - sint x" if n: "sint x < 0"
  proof -
    have "- x = word_of_int (- sint x)" by simp
    then have "uint (- x) = (- sint x) mod 2 ^ LENGTH('w)"
      by (simp only: uint_word_of_int)
    also have "\<dots> = - sint x"
      using n ge w by (intro mod_pos_pos_trivial; linarith)
    finally show ?thesis .
  qed
  show "uint x = sint x" if n: "\<not> sint x < 0"
  proof -
    have "x = word_of_int (sint x)" by simp
    then have "uint x = sint x mod 2 ^ LENGTH('w)"
      by (metis uint_word_of_int)
    also have "\<dots> = sint x"
      using n lt w by (intro mod_pos_pos_trivial; linarith)
    finally show ?thesis .
  qed
qed

lemma unat_magnitude_le:
  fixes x :: "'w::len word"
  shows "unat (if is_signed \<and> sint x < 0 then - x else x)
           \<le> 2 ^ (if is_signed then LENGTH('w) - 1 else LENGTH('w))"
proof (cases is_signed)
  case False
  then show ?thesis using unsigned_less[of x, where 'a = nat] by (simp add: less_imp_le)
next
  case True
  have ge: "- (2 ^ (LENGTH('w) - 1)) \<le> sint x" by (rule sint_ge)
  have lt: "sint x < 2 ^ (LENGTH('w) - 1)" by (rule sint_lt)
  show ?thesis
  proof (cases "sint x < 0")
    case neg: True
    have "int (unat (- x)) = - sint x"
      using uint_of_sint(1)[OF neg] by simp
    then have "int (unat (- x)) \<le> 2 ^ (LENGTH('w) - 1)" using ge by simp
    then have "unat (- x) \<le> 2 ^ (LENGTH('w) - 1)"
      by (metis of_nat_le_iff of_nat_numeral of_nat_power)
    then show ?thesis using True neg by simp
  next
    case False
    have "int (unat x) = sint x"
      using uint_of_sint(2)[OF False] by simp
    then have "int (unat x) \<le> 2 ^ (LENGTH('w) - 1)" using lt by simp
    then have "unat x \<le> 2 ^ (LENGTH('w) - 1)"
      by (metis of_nat_le_iff of_nat_numeral of_nat_power)
    then show ?thesis using True False by simp
  qed
qed

lemma floorlog_pow2_pos: "0 < floorlog 10 (2 ^ n)"
  by (subst compute_floorlog) simp


lemma floorlog_digits10:
  "floorlog 10 (2 ^ (if is_signed then bits - 1 else bits)) = digits10 is_signed bits + 1"
  using floorlog_pow2_pos[of "if is_signed then bits - 1 else bits"]
  by (simp add: digits10_def)

lemma fs_append_char_empty:
  "0 < cap \<Longrightarrow>
   content (fs_append_char cap (empty_string cap) ch) = [ch] \<and>
   len (fs_append_char cap (empty_string cap) ch) = 1 \<and>
   length (data (fs_append_char cap (empty_string cap) ch)) = cap + 1"
  using fs_append_char_props[of "empty_string cap" cap ch] by (simp add: empty_string_props)

lemma to_fstring_content:
  fixes x :: "'w::len word"
  shows "len (to_fstring is_signed x) \<le> length (data (to_fstring is_signed x)) \<and>
         content (to_fstring is_signed x) =
           (if x = 0 then [of_char CHR ''0'']
            else (if is_signed \<and> sint x < 0 then [of_char CHR ''-''] else []) @
                 rev (to_fstring_digits 10
                        (unat (if is_signed \<and> sint x < 0 then - x else x)) []))"
proof (cases "x = 0")
  case True
  let ?cap = "digits10 is_signed LENGTH('w) + 3"
  note a = fs_append_char_props[of "empty_string ?cap :: int fstring" ?cap "of_char CHR ''0''"]
  show ?thesis
    using True a by (simp add: to_fstring_def empty_string_props Let_def)
next
  case False
  let ?cap = "digits10 is_signed LENGTH('w) + 3"
  let ?neg = "is_signed \<and> sint x < 0"
  let ?u = "if ?neg then - x else x"
  let ?buf = "to_fstring_digits 10 (unat ?u) []"
  let ?r = "if ?neg then fs_append_char ?cap (empty_string ?cap) (of_char CHR ''-'')
            else (empty_string ?cap :: int fstring)"
  have r: "length (data ?r) = ?cap + 1" "len ?r \<le> 1"
    "content ?r = (if ?neg then [of_char CHR ''-''] else [])"
    by (simp_all add: empty_string_props fs_append_char_empty del: of_char_Char)
  have "length ?buf = floorlog 10 (unat ?u)"
    by (rule length_to_fstring_digits_floorlog) simp
  also have "\<dots> \<le> floorlog 10 (2 ^ (if is_signed then LENGTH('w) - 1 else LENGTH('w)))"
    by (rule floorlog_mono) (rule unat_magnitude_le)
  also have "\<dots> = digits10 is_signed LENGTH('w) + 1"
    by (rule floorlog_digits10)
  finally have lb: "length ?buf \<le> digits10 is_signed LENGTH('w) + 1" .
  have "content (append_reversed ?cap ?r ?buf (length ?buf)) = content ?r @ rev (take (length ?buf) ?buf) \<and>
        len (append_reversed ?cap ?r ?buf (length ?buf)) = len ?r + length ?buf \<and>
        length (data (append_reversed ?cap ?r ?buf (length ?buf))) = ?cap + 1"
    using r lb by (intro append_reversed_props) simp_all
  moreover have "to_fstring is_signed x = append_reversed ?cap ?r ?buf (length ?buf)"
    using False by (simp add: to_fstring_def Let_def to_fstring_decimal_digits_eq)
  ultimately show ?thesis
    using False r lb by (simp del: of_char_Char)
qed

text \<open>
  The decimal overload round-trips: for every value of every integer type, the minimum of
  a signed type included, \<^verbatim>\<open>parse_int(to_fstring(x), 10) == x\<close>.
\<close>

lemma to_fstring_roundtrip:
  fixes x :: "'w::len word"
  shows "parse_int is_signed (to_fstring is_signed x) 10 = x"
  using to_fstring_content[of is_signed x]
  by (intro parse_int_of_written) simp_all


text \<open>
  \<^verbatim>\<open>to_fstring<signed char>(-128)\<close> is \<^verbatim>\<open>"-128"\<close>, in a string of capacity 5, and parses
  back to \<open>-128\<close>.
\<close>

lemma to_fstring_decimal_minimum:
  "digits10 True 8 = 2 \<and>
   content (to_fstring True (- 128 :: 8 word)) = lit ''-128'' \<and>
   parse_int True (to_fstring True (- 128 :: 8 word)) 10 = (- 128 :: 8 word)"
proof -
  have d: "digits10 True 8 = 2"
    by (simp add: digits10_def compute_floorlog)
  have u: "unat (- (- 128) :: 8 word) = 128" by simp
  have s: "sint (- 128 :: 8 word) < 0" by simp
  have n: "(- 128 :: 8 word) \<noteq> 0" by simp
  have b: "to_fstring_digits 10 128 [] = [56, 50, 49]"
    by (simp add: to_fstring_digits.simps)
  have "content (to_fstring True (- 128 :: 8 word)) =
        [of_char CHR ''-''] @ rev (to_fstring_digits 10 (unat (- (- 128) :: 8 word)) [])"
    using to_fstring_content[of True "- 128 :: 8 word"] s n by (simp only: if_True if_False simp_thms)
  then have "content (to_fstring True (- 128 :: 8 word)) = lit ''-128''"
    unfolding u b by (simp add: lit_def)
  then show ?thesis using d by (simp add: to_fstring_roundtrip)
qed

text \<open>
  The return statements of \<^verbatim>\<open>to_fstring(IntT value, int base)\<close> never agree on a type:
  the capacity \<^verbatim>\<open>sizeof(IntT) * 8 + 2\<close> is at least 3 and the other is 1. No
  instantiation compiles, whatever the integer type, the value and the base.
\<close>

lemma to_fstring_base_never_compiles:
  "to_fstring_base is_signed (x :: 'w::len word) base = Inl Ill_formed"
  by (simp add: to_fstring_base_def to_fstring_base_returns_def deduced_return_def)

text \<open>
  C7. The round trip \<^verbatim>\<open>parse_int(to_fstring(x, base), base) == x\<close> cannot be formed:
  \<^verbatim>\<open>to_fstring<int>(42, 10)\<close> is ill-formed, since the return statements of the function
  deduce \<^verbatim>\<open>basic_fstring<char, 1>\<close> and \<^verbatim>\<open>basic_fstring<char, 34>\<close> for one \<^verbatim>\<open>auto\<close>
  return type, and there is no string to parse. Were the return type repaired, the body
  would still have no defined result at the minimum value of \<^verbatim>\<open>int\<close>, where its
  \<^verbatim>\<open>-value\<close> overflows; the decimal overload \<^verbatim>\<open>to_fstring(IntT value)\<close> has one return
  type and negates with \<^verbatim>\<open>-(value + 1)\<close>, then adds 1 to the unsigned result.
\<close>

theorem to_fstring_base_ill_formed:
  "deduced_return (to_fstring_base_returns 32) = None \<and>
   to_fstring_base True (42 :: 32 word) 10 = Inl Ill_formed \<and>
   (case to_fstring_base True (42 :: 32 word) 10 of
      Inl e \<Rightarrow> None
    | Inr str \<Rightarrow> Some (parse_int True str 10 :: 32 word)) = None \<and>
   to_fstring_body True (- (2 ^ 31) :: 32 word) 10 = Inl Undefined"
  by (simp add: to_fstring_base_def to_fstring_base_returns_def deduced_return_def
      to_fstring_body_def negate_value_def int_bits_def Let_def)

lemma parse_float_no_number:
  assumes "\<not> fs_empty str"
    and "no_number_at is_digit str
           (if data str ! 0 = of_char CHR ''-'' \<or> data str ! 0 = of_char CHR ''+'' then 1 else 0)"
  shows "parse_float ops is_digit str =
           (if data str ! 0 = of_char CHR ''-'' then fneg ops (fzero ops) else fzero ops)"
proof -
  let ?i0 = "if data str ! 0 = of_char CHR ''-'' \<or> data str ! 0 = of_char CHR ''+'' then 1 else 0 :: nat"
  have n: "\<not> (?i0 < len str \<and> is_digit (data str ! ?i0))"
    "\<not> (?i0 < len str \<and> data str ! ?i0 = of_char CHR ''.'')"
    "\<not> (?i0 < len str \<and> (data str ! ?i0 = of_char CHR ''e'' \<or> data str ! ?i0 = of_char CHR ''E''))"
    using assms(2) unfolding no_number_at_def by blast+
  have l: "float_int_loop ops is_digit str ?i0 (fzero ops) = (?i0, fzero ops)"
    by (subst float_int_loop.simps) (simp only: n if_False)
  show ?thesis
    unfolding parse_float_def Let_def l
    using assms(1) n by (simp only: if_False prod.case split: if_splits) 
qed

text \<open>
  C10. \<^verbatim>\<open>parse_int\<close> detects no overflow: on a string of digits of the base it returns
  the number the digits denote reduced modulo \<open>2 ^ w\<close>, whether or not that number fits the
  \<open>w\<close>-bit target.
\<close>

theorem parse_int_wraps:
  fixes str :: "int fstring"
  assumes "storage_ok cap str" and "\<forall>ch \<in> set (content str). valid_digit base ch"
  shows "uint (parse_int is_signed str base :: 'w::len word) =
           digits_value base (content str) mod 2 ^ LENGTH('w)"
proof -
  have l: "len str \<le> length (data str)" using assms(1) by (simp add: storage_ok_def)
  have tw: "takeWhile (valid_digit base) (content str) = content str"
    using assms(2) by simp
  have "(parse_int is_signed str base :: 'w word) = word_of_int (digits_value base (content str))"
  proof (cases "content str")
    case Nil
    then show ?thesis using parse_int_eq[OF l, of is_signed base] by (simp add: digits_value_def)
  next
    case (Cons c cs)
    then have "valid_digit base c" using assms(2) by simp
    then have ns: "c \<noteq> of_char CHR ''-''" "c \<noteq> of_char CHR ''+''"
      using valid_digit_not_sign by blast+
    have "(parse_int is_signed str base :: 'w word) =
        word_of_int (digits_value base (takeWhile (valid_digit base) (content str)))"
      using parse_int_eq[OF l, of is_signed base] Cons ns
      by (simp del: of_char_Char takeWhile.simps)
    then show ?thesis unfolding tw .
  qed
  then show ?thesis by (simp add: uint_word_of_int)
qed

theorem parse_int_wraps_witness:
  "storage_ok 10 (fs_string 10 (Some (lit ''300'')) 3) \<and>
   list_all (valid_digit 10) (content (fs_string 10 (Some (lit ''300'')) 3)) \<and>
   digits_value 10 (content (fs_string 10 (Some (lit ''300'')) 3)) = 300 \<and>
   uint (parse_int False (fs_string 10 (Some (lit ''300'')) 3) 10 :: 8 word) = 44"
proof -
  let ?s = "fs_string 10 (Some (lit ''300'')) 3"
  have h: "storage_ok 10 ?s" by code_simp
  have c: "content ?s = lit ''300''" by code_simp
  have v: "\<forall>ch \<in> set (content ?s). valid_digit 10 ch"
    unfolding c by (simp add: lit_def valid_digit_def digit_of_unit_def)
  have d: "digits_value 10 (content ?s) = 300"
    unfolding c by (simp add: lit_def digits_value_def digit_of_unit_def)
  show ?thesis
    using parse_int_wraps[OF h v, of False, where 'w = 8] h v d by (simp add: list_all_iff)
qed

text \<open>
  C9, as the code has it. Neither function signals an error (both are total). On the empty
  string both return zero. Otherwise \<^verbatim>\<open>parse_int\<close> returns the value, modulo \<open>2 ^ w\<close>, of
  the longest run of digits of the base that follows the optional sign of a signed target
  (negated after \<^verbatim>\<open>'-'\<close>): zero when no digit leads, and the value of the leading digits
  when a malformed tail follows them. \<^verbatim>\<open>parse_float\<close> returns zero (negated after a leading
  \<^verbatim>\<open>'-'\<close>) when no digit, \<^verbatim>\<open>'.'\<close>, \<^verbatim>\<open>'e'\<close> or \<^verbatim>\<open>'E'\<close> follows the optional sign.
\<close>

theorem parse_best_effort:
  fixes str :: "int fstring"
  shows
  "(fs_empty str \<longrightarrow>
      (parse_int is_signed str base :: 'w::len word) = 0 \<and>
      parse_float ops is_digit str = fzero ops) \<and>
   (storage_ok cap str \<longrightarrow>
      (parse_int is_signed str base :: 'w word) =
        (case content str of
           [] \<Rightarrow> 0
         | c # cs \<Rightarrow>
             if is_signed \<and> c = of_char CHR ''-''
             then - word_of_int (digits_value base (takeWhile (valid_digit base) cs))
             else if is_signed \<and> c = of_char CHR ''+''
             then word_of_int (digits_value base (takeWhile (valid_digit base) cs))
             else word_of_int (digits_value base (takeWhile (valid_digit base) (c # cs))))) \<and>
   (\<not> fs_empty str \<and>
    no_number_at is_digit str
      (if data str ! 0 = of_char CHR ''-'' \<or> data str ! 0 = of_char CHR ''+'' then 1 else 0) \<longrightarrow>
      parse_float ops is_digit str =
        (if data str ! 0 = of_char CHR ''-'' then fneg ops (fzero ops) else fzero ops))"
proof (intro conjI impI)
  assume "fs_empty str"
  then show "(parse_int is_signed str base :: 'w word) = 0"
    by (simp add: parse_int_def)
next
  assume "fs_empty str"
  then show "parse_float ops is_digit str = fzero ops"
    by (simp add: parse_float_def)
next
  assume "storage_ok cap str"
  then have "len str \<le> length (data str)" by (simp add: storage_ok_def)
  then show "(parse_int is_signed str base :: 'w word) =
        (case content str of
           [] \<Rightarrow> 0
         | c # cs \<Rightarrow>
             if is_signed \<and> c = of_char CHR ''-''
             then - word_of_int (digits_value base (takeWhile (valid_digit base) cs))
             else if is_signed \<and> c = of_char CHR ''+''
             then word_of_int (digits_value base (takeWhile (valid_digit base) cs))
             else word_of_int (digits_value base (takeWhile (valid_digit base) (c # cs))))"
    by (rule parse_int_eq)
next
  assume "\<not> fs_empty str \<and>
    no_number_at is_digit str
      (if data str ! 0 = of_char CHR ''-'' \<or> data str ! 0 = of_char CHR ''+'' then 1 else 0)"
  then show "parse_float ops is_digit str =
        (if data str ! 0 = of_char CHR ''-'' then fneg ops (fzero ops) else fzero ops)"
    using parse_float_no_number by blast
qed

theorem parse_best_effort_witness:
  "parse_int True (empty_string 10) 10 = (0 :: 32 word) \<and>
   parse_int True (fs_string 10 (Some (lit ''abc'')) 3) 10 = (0 :: 32 word) \<and>
   parse_int True (fs_string 10 (Some (lit ''-12abc'')) 6) 10 = (- 12 :: 32 word) \<and>
   parse_float \<lparr>fzero = 0 :: real, fadd = (+), fmul = (*), fneg = uminus, fint = of_int,
                 ftenth = 1 / 10, fpow10 = (\<lambda>e. 10 powi e)\<rparr>
     (\<lambda>c. of_char CHR ''0'' \<le> c \<and> c \<le> of_char CHR ''9'') (fs_string 10 (Some (lit ''abc'')) 3) = 0"
proof -
  let ?ops = "\<lparr>fzero = 0 :: real, fadd = (+), fmul = (*), fneg = uminus, fint = of_int,
                 ftenth = 1 / 10, fpow10 = (\<lambda>e. 10 powi e)\<rparr>"
  let ?dig = "\<lambda>c :: int. of_char CHR ''0'' \<le> c \<and> c \<le> of_char CHR ''9''"
  let ?e = "empty_string 10 :: int fstring"
  let ?a = "fs_string 10 (Some (lit ''abc'')) 3"
  let ?m = "fs_string 10 (Some (lit ''-12abc'')) 6"
  have e: "fs_empty ?e" by (simp add: fs_empty_def empty_string_def)
  have a: "storage_ok 10 ?a" "content ?a = lit ''abc''" "\<not> fs_empty ?a" "data ?a ! 0 = of_char CHR ''a''"
    by code_simp+
  have m: "storage_ok 10 ?m" "content ?m = lit ''-12abc''" by code_simp+
  have n: "no_number_at ?dig ?a
      (if data ?a ! 0 = of_char CHR ''-'' \<or> data ?a ! 0 = of_char CHR ''+'' then 1 else 0)"
    unfolding a(4) by (simp add: no_number_at_def a(4))
  note pbe = parse_best_effort[where 'w = 32 and is_signed = True and base = 10 and ops = ?ops
      and is_digit = ?dig and cap = 10]
  have 1: "parse_int True ?e 10 = (0 :: 32 word)"
    using pbe[of ?e, THEN conjunct1, rule_format, OF e] by simp
  have 2: "parse_int True ?a 10 = (0 :: 32 word)"
    using pbe[of ?a, THEN conjunct2, THEN conjunct1, rule_format, OF a(1)]
    unfolding a(2) by (simp add: lit_def valid_digit_def digit_of_unit_def digits_value_def)
  have 3: "parse_int True ?m 10 = (- 12 :: 32 word)"
    using pbe[of ?m, THEN conjunct2, THEN conjunct1, rule_format, OF m(1)]
    unfolding m(2) by (simp add: lit_def valid_digit_def digit_of_unit_def digits_value_def)
  have 4: "parse_float ?ops ?dig ?a = 0"
    using pbe[of ?a, THEN conjunct2, THEN conjunct2, rule_format, OF conjI[OF a(3) n]]
    unfolding a(4) by simp
  from 1 2 3 4 show ?thesis by simp
qed

text \<open>
  C9 as stated fails: the malformed string \<^verbatim>\<open>"12abc"\<close> parses to 12, not to zero.
\<close>

theorem parse_malformed_counterexample:
  "parse_int True (fs_string 10 (Some (lit ''12abc'')) 5) 10 = (12 :: 32 word) \<and>
   parse_int True (fs_string 10 (Some (lit ''12abc'')) 5) 10 \<noteq> (0 :: 32 word)"
  by code_simp

section \<open>Erase, ordering and search\<close>

text \<open>
  C1 fails on \<^verbatim>\<open>basic_fstring::erase\<close>: the test \<^verbatim>\<open>index + count >= length_\<close> wraps for a
  count near \<^verbatim>\<open>npos\<close>, and \<^verbatim>\<open>length_ -= count\<close> then wraps too. Erasing
  \<open>2 ^ 64 - 2\<close> units at index 3 of \<^verbatim>\<open>fstring<5>("hello")\<close> leaves \<^verbatim>\<open>length() == 7\<close>, above
  the capacity.
\<close>

theorem fs_erase_breaks_capacity_bound:
  "storage_ok 5 (fs_string 5 (Some (lit ''hello'')) 5) \<and>
   len (fs_erase (fs_string 5 (Some (lit ''hello'')) 5) 3 (2 ^ 64 - 2)) = 7 \<and>
   \<not> storage_ok 5 (fs_erase (fs_string 5 (Some (lit ''hello'')) 5) 3 (2 ^ 64 - 2))"
proof -
  have s: "fs_string 5 (Some (lit ''hello'')) 5 = \<lparr>data = lit ''hello'' @ [0], len = 5\<rparr>"
    by code_simp
  have ok: "storage_ok 5 (fs_string 5 (Some (lit ''hello'')) 5)"
    by code_simp
  have l: "len (fs_erase (fs_string 5 (Some (lit ''hello'')) 5) 3 (2 ^ 64 - 2)) = 7"
    unfolding s by (simp add: fs_erase_def fs_shift_left_def npos_def Let_def size_add_def size_sub_def)
  show ?thesis
    using ok l by (simp add: storage_ok_def)
qed

text \<open>
  The assignment of one unit sets \<^verbatim>\<open>length_ = 1\<close> without looking at the capacity: on a
  string of capacity 0 (the default of the template parameter) the length exceeds it.
\<close>

lemma fs_assign_char_breaks_capacity_bound:
  "storage_ok 0 (empty_string 0 :: 'a::zero fstring) \<and>
   len (fs_assign_char (empty_string 0 :: 'a fstring) ch) = 1 \<and>
   \<not> storage_ok 0 (fs_assign_char (empty_string 0 :: 'a fstring) ch)"
  by (simp add: storage_ok_def empty_string_def fs_assign_char_def)

text \<open>
  C5 fails on the ordering of \<^verbatim>\<open>basic_fstring\<close>: \<^verbatim>\<open>fstring<4>("abcd")\<close> after \<^verbatim>\<open>erase(1)\<close>
  and \<^verbatim>\<open>fstring<4>("a")\<close> have the same content and length and are \<^verbatim>\<open>==\<close>, but the
  defaulted \<^verbatim>\<open><=>\<close> reads the units \<^verbatim>\<open>'c'\<close>, \<^verbatim>\<open>'d'\<close> left behind the terminator and
  answers \<^verbatim>\<open>greater\<close>.
\<close>

theorem fs_ordering_reads_stale_units:
  "content (fs_erase (fs_string 4 (Some (lit ''abcd'')) 4) 1 npos) = lit ''a'' \<and>
   content (fs_string 4 (Some (lit ''a'')) 1) = lit ''a'' \<and>
   len (fs_erase (fs_string 4 (Some (lit ''abcd'')) 4) 1 npos) = len (fs_string 4 (Some (lit ''a'')) 1) \<and>
   fs_eq (fs_erase (fs_string 4 (Some (lit ''abcd'')) 4) 1 npos) (fs_string 4 (Some (lit ''a'')) 1) \<and>
   fs_spaceship 4 (fs_erase (fs_string 4 (Some (lit ''abcd'')) 4) 1 npos)
     (fs_string 4 (Some (lit ''a'')) 1) = Greater"
proof -
  have a: "fs_string 4 (Some (lit ''abcd'')) 4 = \<lparr>data = lit ''abcd'' @ [0], len = 4\<rparr>"
    by code_simp
  have b: "fs_string 4 (Some (lit ''a'')) 1 = \<lparr>data = lit ''a'' @ [0, 0, 0, 0], len = 1\<rparr>"
    by code_simp
  have e: "fs_erase \<lparr>data = lit ''abcd'' @ [0], len = 4\<rparr> 1 npos =
           \<lparr>data = [of_char CHR ''a'', 0, of_char CHR ''c'', of_char CHR ''d'', 0], len = 1\<rparr>"
    by (simp add: fs_erase_def lit_def)
  show ?thesis
    unfolding a b e
    by (simp add: content_def lit_def fs_eq_def fs_spaceship_def detail_compare_def detail_min_def
        strcmp_loop.simps array_spaceship.simps)
qed

text \<open>
  C8 fails on \<^verbatim>\<open>basic_fstring::find\<close>: with \<open>from = length()\<close> the guard
  \<^verbatim>\<open>pos >= length_\<close> returns \<^verbatim>\<open>npos\<close> before the needle is looked at, so the empty needle
  is not found at the end of the string, whatever the absent helpers do.
\<close>

theorem fs_find_empty_needle_at_end:
  "len (fs_string 10 (Some (lit ''abc'')) 3) = 3 \<and>
   fs_find detail_length find_str (fs_string 10 (Some (lit ''abc'')) 3) (Some [0]) 3 = npos \<and>
   npos \<noteq> 3"
proof -
  have l: "len (fs_string 10 (Some (lit ''abc'')) 3) = 3" by code_simp
  show ?thesis using l by (simp add: fs_find_def npos_def)
qed

lemma strlen_Nil: "strlen (0 # xs) = 0" "strlen [] = 0"
  by (simp_all add: strlen_def strlen_loop.simps)

lemma cs_find_empty_needle:
  "strlen str = 0 \<Longrightarrow> cs_find s str pos = (if pos \<le> len s then pos else npos)"
  by (simp add: cs_find_def)

section \<open>Erase without wrap-around\<close>

text \<open>
  \<^verbatim>\<open>string::erase\<close> clamps the count with \<^verbatim>\<open>std::min\<close> and keeps the storage invariants for
  every index and count; it removes \<open>min count (len - pos)\<close> units. \<^verbatim>\<open>basic_fstring::erase\<close>
  does the same as long as \<open>index + count\<close> stays below \<open>2 ^ 64\<close> (or the count is
  \<^verbatim>\<open>npos\<close>).
\<close>

lemma shift_tail:
  assumes "l \<le> length buf" "pos + e \<le> l"
  shows "take (l - e) (copy_loop buf pos (drop (pos + e) buf) 0 (l - (pos + e))) =
         take pos (take l buf) @ drop (pos + e) (take l buf)"
    and "length (copy_loop buf pos (drop (pos + e) buf) 0 (l - (pos + e))) = length buf"
proof -
  define m where "m = l - (pos + e)"
  define src where "src = drop (pos + e) buf"
  have le: "l - e = pos + m" using assms by (simp add: m_def)
  have pm: "pos + m \<le> length buf" "m \<le> length src" "pos \<le> length buf"
    using assms by (simp_all add: m_def src_def)
  have c: "copy_loop buf pos src 0 m = take pos buf @ take m src @ drop (pos + m) buf"
    using pm by (intro copy_loop_eq)
  have t: "take (pos + m) (take pos buf @ take m src @ drop (pos + m) buf) = take pos buf @ take m src"
    using pm by simp
  have d: "drop (pos + e) (take l buf) = take m src"
    unfolding m_def src_def by (simp add: drop_take)
  have p: "take pos (take l buf) = take pos buf"
    using assms by (simp add: min_def)
  show "take (l - e) (copy_loop buf pos (drop (pos + e) buf) 0 (l - (pos + e))) =
         take pos (take l buf) @ drop (pos + e) (take l buf)"
    unfolding le d p m_def[symmetric] src_def[symmetric] c t ..
  show "length (copy_loop buf pos (drop (pos + e) buf) 0 (l - (pos + e))) = length buf"
    by (rule length_copy_loop)
qed

lemma cs_erase_props:
  assumes "storage_ok cap s"
  shows "storage_ok cap (cs_erase s pos n) \<and>
         content (cs_erase s pos n) = take pos (content s) @ drop (pos + n) (content s) \<and>
         len (cs_erase s pos n) = len s - min n (len s - pos)"
proof (cases "pos \<ge> len s")
  case True
  then show ?thesis using assms by (simp add: cs_erase_def content_def)
next
  case False
  note ok = storage_okD[OF assms]
  define e where "e = min n (len s - pos)"
  have pe: "pos + e \<le> len s" using False by (simp add: e_def)
  have l: "len s \<le> length (data s)" using ok by simp
  note st = shift_tail[OF l pe]
  have lc: "length (content s) = len s" using l by (simp add: content_def)
  have dr: "drop (pos + n) (content s) = drop (pos + e) (content s)"
  proof (cases "n \<le> len s - pos")
    case True
    then show ?thesis by (simp add: e_def min_def)
  next
    case False
    then have "length (content s) \<le> pos + n" "length (content s) \<le> pos + e"
      using lc by (simp_all add: e_def)
    then show ?thesis by simp
  qed
  have ce: "cs_erase s pos n =
      \<lparr>data = (if len s - (pos + e) > 0
                then copy_loop (data s) pos (drop (pos + e) (data s)) 0 (len s - (pos + e))
                else data s)[len s - e := 0],
       len = len s - e\<rparr>"
    using False unfolding cs_erase_def Let_def memmove_string_def e_def[symmetric] by simp
  have c: "content (cs_erase s pos n) = take pos (content s) @ drop (pos + e) (content s)"
  proof (cases "len s - (pos + e) > 0")
    case True
    then show ?thesis
      unfolding ce content_def using st(1) by (simp del: take_take)
  next
    case z: False
    with pe have "pos + e = len s" by simp
    then have "len s - e = pos" "drop (pos + e) (take (len s) (data s)) = []"
      "take pos (take (len s) (data s)) = take pos (data s)"
      by (simp_all add: min_def)
    then show ?thesis
      unfolding ce content_def using z by (simp del: take_take)
  qed
  have "len s - e \<le> cap" using ok by simp
  then have k: "storage_ok cap (cs_erase s pos n)"
    unfolding ce storage_ok_def using ok st(2) by simp
  have "len (cs_erase s pos n) = len s - e"
    unfolding ce by simp
  with c k dr show ?thesis by (simp add: e_def)
qed

lemma sub_mod_eq:
  fixes a b M :: nat
  assumes "b \<le> a" "a < M"
  shows "(a + M - b mod M) mod M = a - b"
proof -
  have b: "b mod M = b" using assms by simp
  have s: "a + M - b = (a - b) + M" using assms by simp
  have l: "a - b < M" using assms by simp
  have "(a + M - b mod M) mod M = (a + M - b) mod M" by (simp only: b)
  also have "\<dots> = ((a - b) + M) mod M" by (simp only: s)
  also have "\<dots> = (a - b) mod M" by (simp only: mod_add_self2)
  also have "\<dots> = a - b" using l by (rule mod_less)
  finally show ?thesis .
qed

lemma size_sub_eq: "b \<le> a \<Longrightarrow> a < 2 ^ 64 \<Longrightarrow> size_sub a b = a - b"
  unfolding size_sub_def by (rule sub_mod_eq)

lemma size_add_eq: "a + b < 2 ^ 64 \<Longrightarrow> size_add a b = a + b"
  unfolding size_add_def by (rule mod_less)

lemma npos_ge: "a < 2 ^ 64 \<Longrightarrow> a \<le> npos"
  unfolding npos_def by (metis Suc_pred' less_Suc_eq_le zero_less_numeral zero_less_power)

lemma fs_erase_props:
  assumes "storage_ok cap s" "cap < 2 ^ 64" "n = npos \<or> index + n < 2 ^ 64"
  shows "storage_ok cap (fs_erase s index n) \<and>
         content (fs_erase s index n) = take index (content s) @ drop (index + n) (content s)"
proof (cases "index < len s")
  case False
  then show ?thesis using assms by (simp add: fs_erase_def content_def)
next
  case True
  note ok = storage_okD[OF assms(1)]
  have l: "len s \<le> length (data s)" "len s < 2 ^ 64" using ok assms(2) by simp_all
  have ti: "take index (take (len s) (data s)) = take index (data s)"
    using True by (simp add: min_def)
  show ?thesis
  proof (cases "n = npos \<or> size_add index n \<ge> len s")
    case c: True
    have "len s \<le> index + n"
    proof (cases "n = npos")
      case True
      then show ?thesis using npos_ge[OF l(2)] by simp
    next
      case False
      then have "size_add index n = index + n" using assms(3) by (simp add: size_add_eq)
      then show ?thesis using c False by simp
    qed
    then have "drop (index + n) (content s) = []" by (simp add: content_def)
    moreover have "fs_erase s index n = \<lparr>data = (data s)[index := 0], len = index\<rparr>"
      using True c by (simp add: fs_erase_def Let_def)
    ultimately show ?thesis
      using True ok ti by (simp add: storage_ok_def content_def)
  next
    case c: False
    then have n: "n \<noteq> npos" and "\<not> len s \<le> size_add index n" by simp_all
    moreover have sa: "size_add index n = index + n"
      using assms(3) n by (simp add: size_add_eq)
    ultimately have lt: "index + n < len s" by simp
    have lt2: "len s - index < 2 ^ 64"
      using l(2) by (rule le_less_trans[OF diff_le_self])
    have "size_sub (len s) index = len s - index"
      using lt by (intro size_sub_eq l(2)) simp
    moreover have "size_sub (len s - index) n = len s - index - n"
      using lt by (intro size_sub_eq lt2) simp
    moreover have "size_sub (len s) n = len s - n"
      using lt by (intro size_sub_eq l(2)) simp
    ultimately have ss: "size_sub (len s) n = len s - n"
      "size_sub (size_sub (len s) index) n = len s - (index + n)"
      by simp_all
    note st = shift_tail[OF l(1) lt[THEN less_imp_le]]
    have lb: "len s - n \<le> cap" using ok by simp
    show ?thesis
    proof (cases "n = 0")
      case True
      have "fs_erase s index n = \<lparr>data = (data s)[len s := 0], len = len s\<rparr>"
        using c \<open>index < len s\<close> True size_sub_eq[OF le0 l(2)]
        by (simp add: fs_erase_def fs_shift_left_def Let_def)
      moreover have "take (len s) (data s) = take index (data s) @ drop index (take (len s) (data s))"
        using append_take_drop_id[of index "take (len s) (data s)"] ti by simp
      moreover have "min index (len s) = index" using \<open>index < len s\<close> by simp
      ultimately show ?thesis
        using True ok by (simp add: storage_ok_def content_def)
    next
      case False
      have e: "fs_erase s index n =
          \<lparr>data = (copy_loop (data s) index (drop (index + n) (data s)) 0 (len s - (index + n)))[len s - n := 0],
           len = len s - n\<rparr>"
        using c \<open>index < len s\<close> False
        unfolding fs_erase_def fs_shift_left_def Let_def detail_move_def ss sa by simp
      let ?d = "copy_loop (data s) index (drop (index + n) (data s)) 0 (len s - (index + n))"
      have c1: "take (len s - n) (?d[len s - n := 0]) = take (len s - n) ?d"
        by simp
      have k1: "length (?d[len s - n := 0]) = cap + 1"
        using st(2) ok by simp
      have k2: "(?d[len s - n := 0]) ! (len s - n) = 0"
        using st(2) ok lb by simp
      have "content (fs_erase s index n) = take index (content s) @ drop (index + n) (content s)"
        unfolding e content_def using c1 st(1) by simp
      moreover have "storage_ok cap (fs_erase s index n)"
        unfolding e storage_ok_def using k1 k2 lb by simp
      ultimately show ?thesis by simp
    qed
  qed
qed

lemma fs_clear_ok: "length (data s) = cap + 1 \<Longrightarrow> storage_ok cap (fs_clear s)"
  by (simp add: fs_clear_def storage_ok_def)

lemma fs_append_char_ok: "storage_ok cap s \<Longrightarrow> storage_ok cap (fs_append_char cap s ch)"
  by (auto simp: fs_append_char_def fs_full_def storage_ok_def)

section \<open>Comparison by content\<close>

text \<open>
  \<^verbatim>\<open>string::compare\<close> is the lexicographic comparison of the contents, a proper prefix
  being smaller, and \<^verbatim>\<open>operator==\<close> and \<^verbatim>\<open>operator<=>\<close> of \<^verbatim>\<open>string\<close> follow it: units
  beyond \<^verbatim>\<open>length()\<close> play no part.
\<close>

lemma strcmp_loop_range: "strcmp_loop a b i n \<in> {- 1, 0, 1}"
proof (induction a b i n rule: strcmp_loop.induct)
  case (1 a b i n)
  then show ?case by (subst strcmp_loop.simps) auto
qed

lemma strcmp_loop_zero:
  "strcmp_loop a b i n = 0 \<longleftrightarrow> (\<forall>k. i \<le> k \<and> k < n \<longrightarrow> a ! k = b ! k)"
proof (induction a b i n rule: strcmp_loop.induct)
  case (1 a b i n)
  show ?case
  proof (cases "i < n")
    case False
    then show ?thesis by (subst strcmp_loop.simps) auto
  next
    case True
    show ?thesis
    proof (cases "a ! i = b ! i")
      case False
      then have "strcmp_loop a b i n \<noteq> 0"
        using True by (subst strcmp_loop.simps) auto
      then show ?thesis using False True by auto
    next
      case e: True
      have "strcmp_loop a b i n = strcmp_loop a b (i + 1) n"
        using True e by (subst strcmp_loop.simps) simp
      moreover have "strcmp_loop a b (i + 1) n = 0 \<longleftrightarrow> (\<forall>k. i + 1 \<le> k \<and> k < n \<longrightarrow> a ! k = b ! k)"
        using "1.IH"[OF True] e by simp
      moreover have "(\<forall>k. i + 1 \<le> k \<and> k < n \<longrightarrow> a ! k = b ! k) \<longleftrightarrow>
                     (\<forall>k. i \<le> k \<and> k < n \<longrightarrow> a ! k = b ! k)"
      proof
        assume h: "\<forall>k. i + 1 \<le> k \<and> k < n \<longrightarrow> a ! k = b ! k"
        show "\<forall>k. i \<le> k \<and> k < n \<longrightarrow> a ! k = b ! k"
        proof (intro allI impI)
          fix k assume k: "i \<le> k \<and> k < n"
          show "a ! k = b ! k"
          proof (cases "k = i")
            case True then show ?thesis using e by simp
          next
            case False then show ?thesis using k h by simp
          qed
        qed
      next
        assume "\<forall>k. i \<le> k \<and> k < n \<longrightarrow> a ! k = b ! k"
        then show "\<forall>k. i + 1 \<le> k \<and> k < n \<longrightarrow> a ! k = b ! k" by simp
      qed
      ultimately show ?thesis by simp
    qed
  qed
qed

lemma strcmp_loop_neg:
  "strcmp_loop a b i n < 0 \<longleftrightarrow>
     (\<exists>k. i \<le> k \<and> k < n \<and> a ! k < b ! k \<and> (\<forall>j. i \<le> j \<and> j < k \<longrightarrow> a ! j = b ! j))"
proof (induction a b i n rule: strcmp_loop.induct)
  case (1 a b i n)
  show ?case
  proof (cases "i < n")
    case False
    then show ?thesis by (subst strcmp_loop.simps) auto
  next
    case True
    consider (lt) "a ! i < b ! i" | (gt) "b ! i < a ! i" | (eq) "a ! i = b ! i"
      by (metis not_less_iff_gr_or_eq)
    then show ?thesis
    proof cases
      case lt
      then have "strcmp_loop a b i n = - 1"
        using True by (subst strcmp_loop.simps) simp
      moreover have "\<exists>k. i \<le> k \<and> k < n \<and> a ! k < b ! k \<and> (\<forall>j. i \<le> j \<and> j < k \<longrightarrow> a ! j = b ! j)"
        using lt True by (intro exI[of _ i]) auto
      ultimately show ?thesis by simp
    next
      case gt
      then have "strcmp_loop a b i n = 1"
        using True by (subst strcmp_loop.simps) auto
      moreover have "\<not> (\<exists>k. i \<le> k \<and> k < n \<and> a ! k < b ! k \<and> (\<forall>j. i \<le> j \<and> j < k \<longrightarrow> a ! j = b ! j))"
      proof
        assume "\<exists>k. i \<le> k \<and> k < n \<and> a ! k < b ! k \<and> (\<forall>j. i \<le> j \<and> j < k \<longrightarrow> a ! j = b ! j)"
        then obtain k where k: "i \<le> k" "a ! k < b ! k" "\<forall>j. i \<le> j \<and> j < k \<longrightarrow> a ! j = b ! j"
          by blast
        show False
        proof (cases "k = i")
          case True
          then show ?thesis using k gt by auto
        next
          case False
          then have "i < k" using k by simp
          then have "a ! i = b ! i" using k by simp
          then show ?thesis using gt by simp
        qed
      qed
      ultimately show ?thesis by simp
    next
      case eq
      have "strcmp_loop a b i n = strcmp_loop a b (i + 1) n"
        using True eq by (subst strcmp_loop.simps) simp
      moreover have "strcmp_loop a b (i + 1) n < 0 \<longleftrightarrow>
          (\<exists>k. i + 1 \<le> k \<and> k < n \<and> a ! k < b ! k \<and> (\<forall>j. i + 1 \<le> j \<and> j < k \<longrightarrow> a ! j = b ! j))"
        using "1.IH"[OF True] eq by simp
      moreover have "(\<exists>k. i + 1 \<le> k \<and> k < n \<and> a ! k < b ! k \<and> (\<forall>j. i + 1 \<le> j \<and> j < k \<longrightarrow> a ! j = b ! j)) \<longleftrightarrow>
          (\<exists>k. i \<le> k \<and> k < n \<and> a ! k < b ! k \<and> (\<forall>j. i \<le> j \<and> j < k \<longrightarrow> a ! j = b ! j))"
      proof
        assume "\<exists>k. i + 1 \<le> k \<and> k < n \<and> a ! k < b ! k \<and> (\<forall>j. i + 1 \<le> j \<and> j < k \<longrightarrow> a ! j = b ! j)"
        then obtain k where k: "i + 1 \<le> k" "k < n" "a ! k < b ! k"
          "\<forall>j. i + 1 \<le> j \<and> j < k \<longrightarrow> a ! j = b ! j" by blast
        have "\<forall>j. i \<le> j \<and> j < k \<longrightarrow> a ! j = b ! j"
        proof (intro allI impI)
          fix j assume j: "i \<le> j \<and> j < k"
          show "a ! j = b ! j"
          proof (cases "j = i")
            case True then show ?thesis using eq by simp
          next
            case False then show ?thesis using j k(4) by simp
          qed
        qed
        then show "\<exists>k. i \<le> k \<and> k < n \<and> a ! k < b ! k \<and> (\<forall>j. i \<le> j \<and> j < k \<longrightarrow> a ! j = b ! j)"
          using k by (intro exI[of _ k]) simp
      next
        assume "\<exists>k. i \<le> k \<and> k < n \<and> a ! k < b ! k \<and> (\<forall>j. i \<le> j \<and> j < k \<longrightarrow> a ! j = b ! j)"
        then obtain k where k: "i \<le> k" "k < n" "a ! k < b ! k"
          "\<forall>j. i \<le> j \<and> j < k \<longrightarrow> a ! j = b ! j" by blast
        have "k \<noteq> i" using k(3) eq by auto
        then have "i + 1 \<le> k" using k(1) by simp
        then show "\<exists>k. i + 1 \<le> k \<and> k < n \<and> a ! k < b ! k \<and> (\<forall>j. i + 1 \<le> j \<and> j < k \<longrightarrow> a ! j = b ! j)"
          using k by (intro exI[of _ k]) simp
      qed
      ultimately show ?thesis by simp
    qed
  qed
qed

lemma take_eq_iff_nth:
  "k \<le> length xs \<Longrightarrow> k \<le> length ys \<Longrightarrow>
   take k xs = take k ys \<longleftrightarrow> (\<forall>j<k. xs ! j = ys ! j)"
  by (auto simp: list_eq_iff_nth_eq)

lemma cs_compare_zero_iff:
  assumes "len a \<le> length (data a)" "len b \<le> length (data b)"
  shows "cs_compare a b = 0 \<longleftrightarrow> content a = content b"
proof -
  let ?m = "min (len a) (len b)"
  have r: "strcmp_loop (data a) (data b) 0 ?m \<in> {- 1, 0, 1}" by (rule strcmp_loop_range)
  have "cs_compare a b = 0 \<longleftrightarrow> strcmp_loop (data a) (data b) 0 ?m = 0 \<and> len a = len b"
    by (auto simp: cs_compare_def Let_def)
  also have "\<dots> \<longleftrightarrow> (\<forall>k<?m. data a ! k = data b ! k) \<and> len a = len b"
    by (simp add: strcmp_loop_zero)
  also have "\<dots> \<longleftrightarrow> content a = content b"
    using assms by (auto simp: content_def list_eq_iff_nth_eq)
  finally show ?thesis .
qed

lemma cs_compare_neg_iff:
  assumes "len a \<le> length (data a)" "len b \<le> length (data b)"
  shows "cs_compare a b < 0 \<longleftrightarrow> (content a, content b) \<in> lexord {(x, y). x < y}"
proof -
  let ?m = "min (len a) (len b)"
  let ?c = "strcmp_loop (data a) (data b) 0 ?m"
  have la: "length (content a) = len a" and lb: "length (content b) = len b"
    using assms by (simp_all add: content_def)
  have nth: "\<And>k. k < ?m \<Longrightarrow> content a ! k = data a ! k \<and> content b ! k = data b ! k"
    by (simp add: content_def)
  have "cs_compare a b < 0 \<longleftrightarrow> ?c < 0 \<or> (?c = 0 \<and> len a < len b)"
    by (auto simp: cs_compare_def Let_def)
  also have "\<dots> \<longleftrightarrow>
      (\<exists>k. k < ?m \<and> data a ! k < data b ! k \<and> (\<forall>j<k. data a ! j = data b ! j)) \<or>
      ((\<forall>k<?m. data a ! k = data b ! k) \<and> len a < len b)"
    by (simp add: strcmp_loop_zero strcmp_loop_neg)
  also have "\<dots> \<longleftrightarrow>
      (\<exists>k. k < ?m \<and> take k (content a) = take k (content b) \<and> content a ! k < content b ! k) \<or>
      (len a < len b \<and> take (len a) (content b) = content a)"
  proof -
    have 1: "(\<forall>j<k. data a ! j = data b ! j) \<longleftrightarrow> take k (content a) = take k (content b)"
      if "k < ?m" for k
    proof -
      have "take k (content a) = take k (content b) \<longleftrightarrow> (\<forall>j<k. content a ! j = content b ! j)"
        using that la lb by (intro take_eq_iff_nth) simp_all
      also have "\<dots> \<longleftrightarrow> (\<forall>j<k. data a ! j = data b ! j)"
        using that by (simp add: content_def)
      finally show ?thesis by simp
    qed
    have 2: "(\<forall>k<?m. data a ! k = data b ! k) \<longleftrightarrow> take (len a) (content b) = content a"
      if "len a < len b"
    proof -
      have "take (len a) (content b) = take (len a) (content a) \<longleftrightarrow>
            (\<forall>j<len a. content b ! j = content a ! j)"
        using that la lb by (intro take_eq_iff_nth) simp_all
      also have "\<dots> \<longleftrightarrow> (\<forall>j<len a. data b ! j = data a ! j)"
        using that by (simp add: content_def)
      finally show ?thesis using that la by (auto simp: min_def)
    qed
    have A: "(\<exists>k. k < ?m \<and> data a ! k < data b ! k \<and> (\<forall>j<k. data a ! j = data b ! j)) \<longleftrightarrow>
        (\<exists>k. k < ?m \<and> take k (content a) = take k (content b) \<and> content a ! k < content b ! k)"
    proof (rule iff_exI)
      fix k
      show "(k < ?m \<and> data a ! k < data b ! k \<and> (\<forall>j<k. data a ! j = data b ! j)) \<longleftrightarrow>
            (k < ?m \<and> take k (content a) = take k (content b) \<and> content a ! k < content b ! k)"
      proof (cases "k < ?m")
        case True
        show ?thesis using 1[OF True] nth[OF True] True by simp blast
      next
        case False
        then show ?thesis by blast
      qed
    qed
    have B: "((\<forall>k<?m. data a ! k = data b ! k) \<and> len a < len b) \<longleftrightarrow>
        (len a < len b \<and> take (len a) (content b) = content a)"
      using 2 by blast
    show ?thesis unfolding A B ..
  qed
  also have "\<dots> \<longleftrightarrow> (content a, content b) \<in> lexord {(x, y). x < y}"
    unfolding lexord_take_index_conv la lb by auto
  finally show ?thesis .
qed

lemma lexord_less_cases:
  fixes xs ys :: "'a::linorder list"
  shows "xs \<noteq> ys \<Longrightarrow> (xs, ys) \<notin> lexord {(x, y). x < y} \<longleftrightarrow> (ys, xs) \<in> lexord {(x, y). x < y}"
proof -
  assume ne: "xs \<noteq> ys"
  have lin: "(xs, ys) \<in> lexord {(x, y). x < y} \<or> xs = ys \<or> (ys, xs) \<in> lexord {(x, y). x < y}"
    by (rule lexord_linear) auto
  have "asym {(x :: 'a, y). x < y}" by (rule asymI) auto
  then have "asym (lexord {(x :: 'a, y). x < y})" by (rule lexord_asym)
  then have "(xs, ys) \<in> lexord {(x, y). x < y} \<Longrightarrow> (ys, xs) \<notin> lexord {(x, y). x < y}"
    by (auto dest: asymD)
  with lin ne show ?thesis by blast
qed

lemma cs_compare_lexicographic:
  assumes "len a \<le> length (data a)" "len b \<le> length (data b)"
  shows "(cs_eq a b \<longleftrightarrow> content a = content b) \<and>
         cs_spaceship a b =
           (if content a = content b then Equal
            else if (content a, content b) \<in> lexord {(x, y). x < y} then Less
            else Greater) \<and>
         (cs_spaceship a b = Greater \<longleftrightarrow> (content b, content a) \<in> lexord {(x, y). x < y})"
proof -
  note z = cs_compare_zero_iff[OF assms] and n = cs_compare_neg_iff[OF assms]
  have irr: "(content a, content a) \<notin> lexord {(x, y). x < y}"
    by (rule lexord_irreflexive) simp
  have sp: "cs_spaceship a b =
           (if content a = content b then Equal
            else if (content a, content b) \<in> lexord {(x, y). x < y} then Less
            else Greater)"
    using z n by (auto simp: cs_spaceship_def Let_def)
  have "cs_spaceship a b = Greater \<longleftrightarrow> (content b, content a) \<in> lexord {(x, y). x < y}"
  proof (cases "content a = content b")
    case True
    then show ?thesis using sp irr by simp
  next
    case False
    then show ?thesis using sp lexord_less_cases[OF False] by auto
  qed
  with sp z show ?thesis by (simp add: cs_eq_def)
qed

section \<open>Construction from a C string\<close>

text \<open>
  On a C string (units without a zero, then the terminator) \<^verbatim>\<open>detail::strlen\<close> counts the
  units before the terminator, so \<^verbatim>\<open>string(const CharT* str)\<close> keeps the first
  \<open>min (length xs) cap\<close> of them.
\<close>

lemma strlen_loop_cstring:
  "0 \<notin> set xs \<Longrightarrow> n \<le> length xs \<Longrightarrow> strlen_loop (xs @ 0 # ys) n = length xs"
proof (induction "length xs - n" arbitrary: n)
  case 0
  then have n: "n = length xs" by simp
  show ?case unfolding n by (subst strlen_loop.simps) simp
next
  case (Suc k)
  then have lt: "n < length xs" by simp
  then have "(xs @ 0 # ys) ! n \<noteq> 0"
    using Suc.prems(1) by (metis nth_append nth_mem)
  then have "strlen_loop (xs @ 0 # ys) n = strlen_loop (xs @ 0 # ys) (Suc n)"
    using lt by (subst strlen_loop.simps) simp
  also have "\<dots> = length xs"
    using Suc lt by (intro Suc.hyps(1)) simp_all
  finally show ?case .
qed

lemma strlen_cstring: "0 \<notin> set xs \<Longrightarrow> strlen (xs @ 0 # ys) = length xs"
  by (simp add: strlen_def strlen_loop_cstring)

lemma cs_string_cstring:
  assumes "0 \<notin> set xs"
  shows "len (cs_string cap (xs @ [0]) (strlen (xs @ [0]))) = min (length xs) cap \<and>
         content (cs_string cap (xs @ [0]) (strlen (xs @ [0]))) = take cap xs"
proof -
  have sl: "strlen (xs @ [0]) = length xs" using assms by (rule strlen_cstring)
  have le: "length xs \<le> length (xs @ [0])" by simp
  have e: "length (data (empty_string cap :: 'a fstring)) = cap + 1"
    by (simp add: empty_string_def)
  note p = cs_assign_impl_props[OF e le]
  have "content (cs_string cap (xs @ [0]) (length xs)) = take (min (length xs) cap) (xs @ [0])"
    using p(1,2) by (simp add: content_def cs_string_def)
  also have "\<dots> = take cap xs" by (simp add: min_def)
  finally show ?thesis using p(1) by (simp add: sl cs_string_def)
qed

end
